theory Spec2Isabelle
  imports Main "HOL-Library.AList" "HOL-Library.Sublist"
begin

section \<open>The chat server of \<open>server.js\<close> and the pager of \<open>socket.js\<close>\<close>

text \<open>
  The server keeps three plain JavaScript objects, \<open>users\<close>, \<open>rooms\<close> and
  \<open>typingUsers\<close>, and drives a Socket.IO namespace.  A plain object is modelled as an
  association list in insertion order: assigning to a present key keeps its place, assigning
  to an absent key appends it, \<open>delete\<close> removes it.  (Keys that are canonical array
  indices such as \<open>"12"\<close>, which JavaScript enumerates first, and names inherited from
  \<open>Object.prototype\<close> such as \<open>"constructor"\<close> are outside the model; socket ids,
  user names, room names and message texts are strings.)

  Socket.IO itself is not part of the repository.  What the handlers rely on is modelled
  from its documented behaviour: the namespace holds the connected sockets; the in-memory
  adapter holds the pairs (socket, channel) of subscriptions; every socket is subscribed to
  the channel named by its own id when it connects; a closing socket leaves every channel
  before its \<open>disconnect\<close> listener runs; an event without a listener is dropped and
  its acknowledgement callback is never called.
\<close>

subsection \<open>Data\<close>

type_synonym sid = string

text \<open>\<open>{ username, id: socket.id, room }\<close>, the value stored in \<open>users\<close>.\<close>

record user =
  username :: string
  uid :: sid
  room :: string

text \<open>
  The object built by \<open>createMessage\<close>.  \<open>msg_id\<close> is the field \<open>id\<close>
  (a reading of \<open>Date.now()\<close>), \<open>timestamp\<close> the instant that
  \<open>new Date().toISOString()\<close> renders, \<open>msg_room\<close> the field \<open>room\<close> with
  \<open>None\<close> for \<open>null\<close>; \<open>fileData\<close> and \<open>fileName\<close> are \<open>None\<close> for
  \<open>null\<close>; a reaction \<open>{ userId, reaction }\<close> is a pair.
\<close>

record msg =
  msg_id :: nat
  sender :: string
  senderId :: sid
  message :: string
  timestamp :: nat
  msg_room :: "string option"
  isPrivate :: bool
  fileData :: "string option"
  fileName :: "string option"
  reactions :: "(sid \<times> string) list"
  readers :: "string list"

text \<open>The argument \<open>data\<close> of \<open>createMessage\<close>; \<open>None\<close> is a field left out.\<close>

record msg_data =
  d_sender :: string
  d_senderId :: sid
  d_message :: "string option"
  d_room :: "string option"
  d_isPrivate :: "bool option"
  d_fileData :: "string option"
  d_fileName :: "string option"

text \<open>Where an emission goes, and what it carries.\<close>

datatype target =
    Broadcast                   \<comment> \<open>\<open>io.emit\<close>\<close>
  | To_room string              \<comment> \<open>\<open>io.to(r).emit\<close>\<close>
  | To_room_except string sid   \<comment> \<open>\<open>socket.to(r).emit\<close>\<close>
  | To_self sid                 \<comment> \<open>\<open>socket.emit\<close>\<close>

datatype payload =
    User_list "user list"
  | User_joined string sid
  | User_left string sid
  | Room_messages "msg list"
  | Room_users "user list"
  | Receive_message msg
  | Private_message msg
  | Typing_users "string list"
  | Message_reaction nat string
  | Message_read nat "string list"

type_synonym emission = "target \<times> payload"

record state =
  users :: "(sid \<times> user) list"
  rooms :: "(string \<times> msg list) list"
  typingUsers :: "(sid \<times> string) list"
  sockets :: "sid set"
  adapter :: "(sid \<times> string) set"

definition init :: state where
  "init = \<lparr>users = [], rooms = [], typingUsers = [], sockets = {}, adapter = {}\<rparr>"

text \<open>What a client can send on a connection, and the two connection events.\<close>

datatype event =
    Connection
  | User_join string
  | Join_room string
  | Send_message string
  | Send_private string string
  | Send_file string string
  | Typing bool
  | React_message nat string
  | Read_message nat
  | Load_older_messages string "string option" "nat option"
  | Disconnect

text \<open>
  One input of the server: the event, the socket it arrives on, and the two clock readings
  a handler may take (\<open>Date.now()\<close> and \<open>new Date()\<close>).
\<close>

record input =
  socket_id :: sid
  now :: nat
  date :: nat
  event :: event

definition at :: "nat \<Rightarrow> sid \<Rightarrow> event \<Rightarrow> input" where
  "at t s e = \<lparr>socket_id = s, now = t, date = t, event = e\<rparr>"

subsection \<open>Reading the state\<close>

text \<open>\<open>rooms[r] || []\<close>: the log of a room, empty when the room has none.\<close>

definition room_log :: "(string \<times> msg list) list \<Rightarrow> string \<Rightarrow> msg list" where
  "room_log rs r = (case map_of rs r of None \<Rightarrow> [] | Some l \<Rightarrow> l)"

definition current_room :: "state \<Rightarrow> sid \<Rightarrow> string option" where
  "current_room st s = map_option room (map_of (users st) s)"

definition username_of :: "state \<Rightarrow> sid \<Rightarrow> string option" where
  "username_of st s = map_option username (map_of (users st) s)"

text \<open>The connected sockets subscribed to a channel.\<close>

definition members :: "state \<Rightarrow> string \<Rightarrow> sid set" where
  "members st r = {s \<in> sockets st. (s, r) \<in> adapter st}"

text \<open>
  The sockets an emission reaches.  \<open>socket.to(r)\<close> is a broadcast to the channel
  \<open>r\<close> that excepts the channel named by the sender's id: it leaves out every socket
  subscribed to that channel, the sender among them as long as it is subscribed to its own
  channel.  \<open>socket.emit\<close> goes to the socket itself.
\<close>

fun audience :: "state \<Rightarrow> target \<Rightarrow> sid set" where
  "audience st Broadcast = sockets st"
| "audience st (To_room r) = members st r"
| "audience st (To_room_except r s) = members st r - members st s"
| "audience st (To_self s) = {s}"

subsection \<open>\<open>createMessage\<close>\<close>

text \<open>\<open>x || d\<close> on a string that may be missing: the empty string is falsy.\<close>

definition or_default :: "string option \<Rightarrow> string \<Rightarrow> string" where
  "or_default x d = (case x of None \<Rightarrow> d | Some v \<Rightarrow> if v = [] then d else v)"

definition or_null :: "string option \<Rightarrow> string option" where
  "or_null x = (case x of None \<Rightarrow> None | Some v \<Rightarrow> if v = [] then None else Some v)"

definition createMessage :: "nat \<Rightarrow> nat \<Rightarrow> msg_data \<Rightarrow> msg" where
  "createMessage t d data =
     \<lparr>msg_id = t,
      sender = d_sender data,
      senderId = d_senderId data,
      message = or_default (d_message data) [],
      timestamp = d,
      msg_room = Some (or_default (d_room data) ''global''),
      isPrivate = (d_isPrivate data = Some True),
      fileData = or_null (d_fileData data),
      fileName = or_null (d_fileName data),
      reactions = [],
      readers = []\<rparr>"

subsection \<open>The handlers\<close>

text \<open>
  \<open>io.on("connection", \<dots>)\<close>: Socket.IO has added the socket to the namespace and to
  the channel of its own id; the callback only registers the listeners.
\<close>

definition on_connection :: "sid \<Rightarrow> state \<Rightarrow> state \<times> emission list" where
  "on_connection s st =
     (st\<lparr>sockets := insert s (sockets st), adapter := insert (s, s) (adapter st)\<rparr>, [])"

definition on_user_join :: "sid \<Rightarrow> string \<Rightarrow> state \<Rightarrow> state \<times> emission list" where
  "on_user_join s name st =
     (let us = AList.update s \<lparr>username = name, uid = s, room = ''global''\<rparr> (users st)
      in (st\<lparr>users := us, adapter := insert (s, ''global'') (adapter st)\<rparr>,
          [(Broadcast, User_list (map snd us)), (Broadcast, User_joined name s)]))"

definition on_join_room :: "sid \<Rightarrow> string \<Rightarrow> state \<Rightarrow> state \<times> emission list" where
  "on_join_room s roomName st =
     (case map_of (users st) s of
        None \<Rightarrow> (st, [])
      | Some u \<Rightarrow>
          let left = (if room u \<noteq> [] then adapter st - {(s, room u)} else adapter st);
              us = AList.update s (u\<lparr>room := roomName\<rparr>) (users st);
              rs = (if map_of (rooms st) roomName = None
                    then AList.update roomName [] (rooms st) else rooms st)
          in (st\<lparr>users := us, rooms := rs, adapter := insert (s, roomName) left\<rparr>,
              [(To_room s, Room_messages (room_log rs roomName)),
               (To_room roomName,
                Room_users (filter (\<lambda>v. room v = roomName) (map snd us)))]))"

definition on_send_message ::
  "sid \<Rightarrow> nat \<Rightarrow> nat \<Rightarrow> string \<Rightarrow> state \<Rightarrow> state \<times> emission list" where
  "on_send_message s t d body st =
     (case map_of (users st) s of
        None \<Rightarrow> (st, [])
      | Some u \<Rightarrow>
          let msgData = createMessage t d
                \<lparr>d_sender = username u, d_senderId = s, d_message = Some body,
                 d_room = Some (room u), d_isPrivate = None,
                 d_fileData = None, d_fileName = None\<rparr>
          in (st\<lparr>rooms := AList.update (room u)
                              (room_log (rooms st) (room u) @ [msgData]) (rooms st)\<rparr>,
              [(To_room (room u), Receive_message msgData)]))"

definition on_private_message ::
  "sid \<Rightarrow> nat \<Rightarrow> nat \<Rightarrow> string \<Rightarrow> string \<Rightarrow> state \<Rightarrow> state \<times> emission list" where
  "on_private_message s t d to body st =
     (case map_of (users st) s of
        None \<Rightarrow> (st, [])
      | Some u \<Rightarrow>
          let msgData = createMessage t d
                \<lparr>d_sender = username u, d_senderId = s, d_message = Some body,
                 d_room = None, d_isPrivate = Some True,
                 d_fileData = None, d_fileName = None\<rparr>
          in (st, [(To_room_except to s, Private_message msgData),
                   (To_self s, Private_message msgData)]))"

definition on_send_file ::
  "sid \<Rightarrow> nat \<Rightarrow> nat \<Rightarrow> string \<Rightarrow> string \<Rightarrow> state \<Rightarrow> state \<times> emission list" where
  "on_send_file s t d fname fdata st =
     (case map_of (users st) s of
        None \<Rightarrow> (st, [])
      | Some u \<Rightarrow>
          let fileMsg = createMessage t d
                \<lparr>d_sender = username u, d_senderId = s, d_message = None,
                 d_room = Some (room u), d_isPrivate = None,
                 d_fileData = Some fdata, d_fileName = Some fname\<rparr>
          in (st\<lparr>rooms := AList.update (room u)
                              (room_log (rooms st) (room u) @ [fileMsg]) (rooms st)\<rparr>,
              [(To_room (room u), Receive_message fileMsg)]))"

definition on_typing :: "sid \<Rightarrow> bool \<Rightarrow> state \<Rightarrow> state \<times> emission list" where
  "on_typing s isTyping st =
     (case map_of (users st) s of
        None \<Rightarrow> (st, [])
      | Some u \<Rightarrow>
          let ty = (if isTyping then AList.update s (username u) (typingUsers st)
                    else AList.delete s (typingUsers st))
          in (st\<lparr>typingUsers := ty\<rparr>, [(Broadcast, Typing_users (map snd ty))]))"

text \<open>
  \<open>find\<close> returns the first element that satisfies the test, and the handler mutates
  that object in place: \<open>update_first\<close> applies a change to the first match of a list.
\<close>

fun update_first :: "('a \<Rightarrow> bool) \<Rightarrow> ('a \<Rightarrow> 'a) \<Rightarrow> 'a list \<Rightarrow> 'a list" where
  "update_first P f [] = []"
| "update_first P f (x # xs) = (if P x then f x # xs else x # update_first P f xs)"

text \<open>
  The loop of \<open>react_message\<close> over the rooms in key order: the first room whose log
  holds the id gets the reaction and the notification, then the loop breaks.
\<close>

fun react_rooms ::
  "sid \<Rightarrow> nat \<Rightarrow> string \<Rightarrow> (string \<times> msg list) list \<Rightarrow>
   (string \<times> msg list) list \<times> emission list" where
  "react_rooms s messageId reaction [] = ([], [])"
| "react_rooms s messageId reaction ((r, l) # rest) =
     (case find (\<lambda>m. msg_id m = messageId) l of
        Some m \<Rightarrow>
          ((r, update_first (\<lambda>m. msg_id m = messageId)
                  (\<lambda>m. m\<lparr>reactions := reactions m @ [(s, reaction)]\<rparr>) l) # rest,
           [(To_room r, Message_reaction messageId reaction)])
      | None \<Rightarrow>
          (case react_rooms s messageId reaction rest of
             (rest', out) \<Rightarrow> ((r, l) # rest', out)))"

definition on_react_message :: "sid \<Rightarrow> nat \<Rightarrow> string \<Rightarrow> state \<Rightarrow> state \<times> emission list" where
  "on_react_message s messageId reaction st =
     (case react_rooms s messageId reaction (rooms st) of
        (rs, out) \<Rightarrow> (st\<lparr>rooms := rs\<rparr>, out))"

text \<open>
  The loop of \<open>read_message\<close>: every room is visited; in each, the first message with
  the id gets the reader unless it has it already, and the room is then notified with the
  new list of readers.
\<close>

fun read_rooms ::
  "string \<Rightarrow> nat \<Rightarrow> (string \<times> msg list) list \<Rightarrow>
   (string \<times> msg list) list \<times> emission list" where
  "read_rooms name messageId [] = ([], [])"
| "read_rooms name messageId ((r, l) # rest) =
     (case read_rooms name messageId rest of
        (rest', out) \<Rightarrow>
          (case find (\<lambda>m. msg_id m = messageId) l of
             Some m \<Rightarrow>
               if name \<notin> set (readers m)
               then ((r, update_first (\<lambda>m. msg_id m = messageId)
                           (\<lambda>m. m\<lparr>readers := readers m @ [name]\<rparr>) l) # rest',
                     (To_room r, Message_read messageId (readers m @ [name])) # out)
               else ((r, l) # rest', out)
           | None \<Rightarrow> ((r, l) # rest', out)))"

definition on_read_message :: "sid \<Rightarrow> nat \<Rightarrow> state \<Rightarrow> state \<times> emission list" where
  "on_read_message s messageId st =
     (case map_of (users st) s of
        None \<Rightarrow> (st, [])
      | Some u \<Rightarrow>
          (case read_rooms (username u) messageId (rooms st) of
             (rs, out) \<Rightarrow> (st\<lparr>rooms := rs\<rparr>, out)))"

text \<open>
  \<open>disconnect\<close>: Socket.IO has removed the socket from the namespace and from every
  channel; then the listener runs.
\<close>

definition on_disconnect :: "sid \<Rightarrow> state \<Rightarrow> state \<times> emission list" where
  "on_disconnect s st =
     (let st1 = st\<lparr>sockets := sockets st - {s},
                    adapter := {p \<in> adapter st. fst p \<noteq> s}\<rparr>
      in case map_of (users st1) s of
           None \<Rightarrow> (st1, [])
         | Some u \<Rightarrow>
             let us = AList.delete s (users st1);
                 ty = AList.delete s (typingUsers st1)
             in (st1\<lparr>users := us, typingUsers := ty\<rparr>,
                 [(Broadcast, User_left (username u) s),
                  (Broadcast, User_list (map snd us)),
                  (Broadcast, Typing_users (map snd ty))]))"

text \<open>
  The dispatch of one input.  The server registers no listener for
  \<open>load_older_messages\<close>, so that event changes nothing and emits nothing.
\<close>

definition step :: "state \<Rightarrow> input \<Rightarrow> state \<times> emission list" where
  "step st i =
     (case event i of
        Connection \<Rightarrow> on_connection (socket_id i) st
      | User_join name \<Rightarrow> on_user_join (socket_id i) name st
      | Join_room r \<Rightarrow> on_join_room (socket_id i) r st
      | Send_message body \<Rightarrow> on_send_message (socket_id i) (now i) (date i) body st
      | Send_private to body \<Rightarrow>
          on_private_message (socket_id i) (now i) (date i) to body st
      | Send_file fname fdata \<Rightarrow>
          on_send_file (socket_id i) (now i) (date i) fname fdata st
      | Typing b \<Rightarrow> on_typing (socket_id i) b st
      | React_message messageId reaction \<Rightarrow>
          on_react_message (socket_id i) messageId reaction st
      | Read_message messageId \<Rightarrow> on_read_message (socket_id i) messageId st
      | Load_older_messages r p oldest \<Rightarrow> (st, [])
      | Disconnect \<Rightarrow> on_disconnect (socket_id i) st)"

fun run :: "state \<Rightarrow> input list \<Rightarrow> state" where
  "run st [] = st"
| "run st (i # is) = run (fst (step st i)) is"

text \<open>Everything emitted along a run, in order.\<close>

fun emitted :: "state \<Rightarrow> input list \<Rightarrow> emission list" where
  "emitted st [] = []"
| "emitted st (i # is) = snd (step st i) @ emitted (fst (step st i)) is"

subsection \<open>The client's pager\<close>

text \<open>
  None of the listeners of \<open>server.js\<close> takes an acknowledgement callback, so the
  server acknowledges no event: the reply to any input is \<open>None\<close>.
\<close>

definition acknowledged :: "state \<Rightarrow> input \<Rightarrow> msg list option" where
  "acknowledged st i = None"

text \<open>
  \<open>loadOlderMessages\<close> of \<open>socket.js\<close>, given the server's reply (\<open>None\<close>: no
  reply, the callback never runs) and the messages the client holds: the new list of
  messages, and what the caller's callback is given (\<open>None\<close>: it is not called).
\<close>

definition loadOlderMessages :: "msg list option \<Rightarrow> msg list \<Rightarrow> msg list \<times> msg list option" where
  "loadOlderMessages reply prev =
     (case reply of
        None \<Rightarrow> (prev, None)
      | Some olderMessages \<Rightarrow>
          (if olderMessages \<noteq> [] then olderMessages @ prev else prev, Some olderMessages))"

subsection \<open>Observations used to state the properties\<close>

text \<open>All the sockets a list of emissions reaches.\<close>

definition reached :: "state \<Rightarrow> emission list \<Rightarrow> sid set" where
  "reached st out = \<Union> (set (map (\<lambda>e. audience st (fst e)) out))"

text \<open>
  The messages a list of emissions shows to have been created, in order: a room message
  is emitted once to its room, a private message once to its sender.
\<close>

fun created_by :: "emission \<Rightarrow> msg list" where
  "created_by (To_room r, Receive_message m) = [m]"
| "created_by (To_self s, Private_message m) = [m]"
| "created_by e = []"

definition created :: "emission list \<Rightarrow> msg list" where
  "created out = concat (map created_by out)"

text \<open>\<open>msg_ext m m'\<close>: \<open>m'\<close> is \<open>m\<close> with possibly more reactions and readers.\<close>

definition msg_ext :: "msg \<Rightarrow> msg \<Rightarrow> bool" where
  "msg_ext m m' \<longleftrightarrow>
     msg_id m' = msg_id m \<and> msg_room m' = msg_room m \<and> isPrivate m' = isPrivate m \<and>
     timestamp m' = timestamp m \<and> message m' = message m \<and> fileData m' = fileData m \<and>
     fileName m' = fileName m \<and> sender m' = sender m \<and> senderId m' = senderId m \<and>
     prefix (reactions m) (reactions m') \<and> prefix (readers m) (readers m')"

definition log_ext :: "msg list \<Rightarrow> msg list \<Rightarrow> bool" where
  "log_ext l l' \<longleftrightarrow> length l \<le> length l' \<and> (\<forall>i<length l. msg_ext (l ! i) (l' ! i))"

text \<open>Position \<open>i\<close> holds the first message of the log with the id.\<close>

definition first_with_id :: "nat \<Rightarrow> msg list \<Rightarrow> nat \<Rightarrow> bool" where
  "first_with_id k l i \<longleftrightarrow> i < length l \<and> msg_id (l ! i) = k \<and> (\<forall>j<i. msg_id (l ! j) \<noteq> k)"

text \<open>What \<open>read_message\<close> does to one log.\<close>

definition read_log :: "string \<Rightarrow> nat \<Rightarrow> msg list \<Rightarrow> msg list" where
  "read_log name k l =
     (case find (\<lambda>m. msg_id m = k) l of
        None \<Rightarrow> l
      | Some m \<Rightarrow>
          if name \<notin> set (readers m)
          then update_first (\<lambda>m. msg_id m = k) (\<lambda>m. m\<lparr>readers := readers m @ [name]\<rparr>) l
          else l)"

text \<open>
  The inputs under which the membership invariant is stated: a connection registers at
  most once, on a connected socket whose id is not the default room's name, and the name
  of a room to switch to is neither empty nor the connection's own id.
\<close>

definition admissible :: "state \<Rightarrow> input \<Rightarrow> bool" where
  "admissible st i =
     (case event i of
        User_join name \<Rightarrow>
          socket_id i \<in> sockets st \<and> map_of (users st) (socket_id i) = None \<and>
          socket_id i \<noteq> ''global''
      | Join_room r \<Rightarrow> r \<noteq> [] \<and> r \<noteq> socket_id i
      | _ \<Rightarrow> True)"

fun admissible_run :: "state \<Rightarrow> input list \<Rightarrow> bool" where
  "admissible_run st [] = True"
| "admissible_run st (i # is) = (admissible st i \<and> admissible_run (fst (step st i)) is)"

subsection \<open>Invariants of the reachable states\<close>

text \<open>
  Registered sessions are connected and sit in a non-empty room other than their own
  channel, and the subscriptions are exactly: each connected socket to its own channel, each
  registered session to its current room.
\<close>

definition member_inv :: "state \<Rightarrow> bool" where
  "member_inv st \<longleftrightarrow>
     (\<forall>s u. map_of (users st) s = Some u \<longrightarrow> s \<in> sockets st \<and> room u \<noteq> [] \<and> room u \<noteq> s) \<and>
     (\<forall>s c. (s, c) \<in> adapter st \<longleftrightarrow>
        (s \<in> sockets st \<and> c = s) \<or> (\<exists>u. map_of (users st) s = Some u \<and> room u = c))"

text \<open>No log holds a private message.\<close>

definition public_logs :: "state \<Rightarrow> bool" where
  "public_logs st \<longleftrightarrow> (\<forall>r. \<forall>m\<in>set (room_log (rooms st) r). \<not> isPrivate m)"

text \<open>Only registered sessions are marked as typing.\<close>

definition typing_inv :: "state \<Rightarrow> bool" where
  "typing_inv st \<longleftrightarrow> (\<forall>s. map_of (users st) s = None \<longrightarrow> map_of (typingUsers st) s = None)"

text \<open>The notification \<open>read_message\<close> sends for one room, if any.\<close>

definition read_note :: "string \<Rightarrow> nat \<Rightarrow> string \<Rightarrow> msg list \<Rightarrow> emission list" where
  "read_note name k r l =
     (case find (\<lambda>m. msg_id m = k) l of
        None \<Rightarrow> []
      | Some m \<Rightarrow>
          if name \<notin> set (readers m)
          then [(To_room r, Message_read k (readers m @ [name]))] else [])"

subsection \<open>Scenarios\<close>

text \<open>Session \<open>a\<close> connects and registers as \<open>al\<close>.\<close>

definition joined_a :: "input list" where
  "joined_a = [at 1 ''a'' Connection, at 2 ''a'' (User_join ''al'')]"

text \<open>Then it sends one message at clock reading 5.\<close>

definition one_send :: "input list" where
  "one_send = joined_a @ [at 5 ''a'' (Send_message ''hi'')]"

text \<open>Two messages within the same millisecond.\<close>

definition two_sends :: "input list" where
  "two_sends = one_send @ [at 5 ''a'' (Send_message ''again'')]"

text \<open>A session switches to \<open>tech\<close> and then sends \<open>user_join\<close> a second time.\<close>

definition rejoin :: "input list" where
  "rejoin = joined_a @ [at 3 ''a'' (Join_room ''tech''), at 4 ''a'' (User_join ''al'')]"

text \<open>A session switches to the room with the empty name and then to \<open>tech\<close>.\<close>

definition blank_room :: "input list" where
  "blank_room = joined_a @ [at 3 ''a'' (Join_room []), at 4 ''a'' (Join_room ''tech'')]"

text \<open>Two sessions register, one switches room, the other leaves.\<close>

definition switching :: "input list" where
  "switching = joined_a @
     [at 3 ''b'' Connection, at 4 ''b'' (User_join ''bo''),
      at 5 ''a'' (Join_room ''tech''), at 6 ''b'' Disconnect]"

text \<open>Two registered sessions in the default room.\<close>

definition pair :: "input list" where
  "pair = joined_a @ [at 3 ''b'' Connection, at 4 ''b'' (User_join ''bo'')]"

text \<open>A third session switches to the room named by the id of session \<open>b\<close>.\<close>

definition eavesdrop :: "input list" where
  "eavesdrop = pair @
     [at 5 ''c'' Connection, at 6 ''c'' (User_join ''cy''), at 7 ''c'' (Join_room ''b'')]"

text \<open>Two connections registered under one name; one message.\<close>

definition namesakes :: "input list" where
  "namesakes = one_send @ [at 6 ''b'' Connection, at 7 ''b'' (User_join ''al'')]"

text \<open>A message in \<open>global\<close> and one in \<open>tech\<close> with the same id.\<close>

definition shared_id :: "input list" where
  "shared_id = pair @
     [at 5 ''b'' (Join_room ''tech''), at 6 ''a'' (Send_message ''hi''),
      at 6 ''b'' (Send_message ''ho'')]"

text \<open>A session that is typing.\<close>

definition typing_a :: "input list" where
  "typing_a = joined_a @ [at 3 ''a'' (Typing True)]"

text \<open>A message is sent, then a connection that never registers is opened.\<close>

definition lurker :: "input list" where
  "lurker = one_send @ [at 6 ''b'' Connection]"

text \<open>The private message \<open>a\<close> creates at clock reading 3.\<close>

definition private_hi :: msg where
  "private_hi =
     \<lparr>msg_id = 3, sender = ''al'', senderId = ''a'', message = ''hi'', timestamp = 3,
      msg_room = Some ''global'', isPrivate = True, fileData = None, fileName = None,
      reactions = [], readers = []\<rparr>"


section \<open>Properties\<close>

subsection \<open>Lists and logs\<close>

lemma length_update_first [simp]: "length (update_first P f xs) = length xs"
  by (induction xs) auto

lemma find_Some_P: "find P xs = Some m \<Longrightarrow> P m"
  by (induction xs) (auto split: if_splits)

lemma find_update_first:
  "find P xs = Some m \<Longrightarrow> P (f m) \<Longrightarrow> find P (update_first P f xs) = Some (f m)"
  by (induction xs) (auto split: if_splits)

lemma map_update_first:
  "(\<And>x. g (f x) = g x) \<Longrightarrow> map g (update_first P f xs) = map g xs"
  by (induction xs) auto

lemma set_update_first:
  "x \<in> set (update_first P f xs) \<Longrightarrow> x \<in> set xs \<or> (\<exists>y\<in>set xs. x = f y)"
  by (induction xs) (auto split: if_splits)

lemma nth_update_first:
  "i < length xs \<Longrightarrow> update_first P f xs ! i = xs ! i \<or> update_first P f xs ! i = f (xs ! i)"
proof (induction xs arbitrary: i)
  case Nil
  then show ?case by simp
next
  case (Cons x xs)
  then show ?case by (cases i) auto
qed

lemma same_or_snoc_set: "xs = ys \<or> xs = ys @ [a] \<Longrightarrow> set xs \<subseteq> insert a (set ys)"
  by auto

lemma msg_ext_refl: "msg_ext m m"
  by (simp add: msg_ext_def)

lemma msg_ext_trans: "msg_ext a b \<Longrightarrow> msg_ext b c \<Longrightarrow> msg_ext a c"
  unfolding msg_ext_def by (metis prefix_order.order_trans)

lemma log_ext_refl: "log_ext l l"
  by (simp add: log_ext_def msg_ext_refl)

lemma log_ext_trans: "log_ext a b \<Longrightarrow> log_ext b c \<Longrightarrow> log_ext a c"
  unfolding log_ext_def by (meson msg_ext_trans le_trans less_le_trans)

lemma log_ext_append: "log_ext l (l @ [m])"
  by (simp add: log_ext_def msg_ext_refl nth_append)

lemma log_ext_update_first:
  assumes "\<And>m. msg_ext m (f m)"
  shows "log_ext l (update_first P f l)"
  unfolding log_ext_def
  using nth_update_first [of _ l P f] assms msg_ext_refl by (auto, metis)

subsection \<open>What one step does to a room's log\<close>

lemma room_log_update:
  "room_log (AList.update k v rs) r = (if r = k then v else room_log rs r)"
  by (simp add: room_log_def update_conv')

lemma room_log_react:
  "room_log (fst (react_rooms s k x rs)) r = room_log rs r \<or>
   room_log (fst (react_rooms s k x rs)) r =
     update_first (\<lambda>m. msg_id m = k) (\<lambda>m. m\<lparr>reactions := reactions m @ [(s, x)]\<rparr>)
       (room_log rs r)"
proof (induction rs)
  case Nil
  then show ?case by simp
next
  case (Cons p rs)
  obtain q l where p: "p = (q, l)" by (cases p)
  show ?case
  proof (cases "find (\<lambda>m. msg_id m = k) l")
    case None
    then show ?thesis using Cons p
      by (cases "react_rooms s k x rs") (auto simp: room_log_def)
  next
    case (Some m)
    then show ?thesis using p by (auto simp: room_log_def)
  qed
qed

lemma room_log_read:
  "room_log (fst (read_rooms n k rs)) r = room_log rs r \<or>
   room_log (fst (read_rooms n k rs)) r =
     update_first (\<lambda>m. msg_id m = k) (\<lambda>m. m\<lparr>readers := readers m @ [n]\<rparr>) (room_log rs r)"
proof (induction rs)
  case Nil
  then show ?case by simp
next
  case (Cons p rs)
  obtain q l where p: "p = (q, l)" by (cases p)
  obtain rs' out where rr: "read_rooms n k rs = (rs', out)" by (cases "read_rooms n k rs")
  show ?case using Cons p rr
    by (cases "find (\<lambda>m. msg_id m = k) l") (auto simp: room_log_def)
qed

text \<open>
  One step leaves a room's log as it is, appends one public message created at the
  step's clock reading, or changes the reactions or the readers of one message.
\<close>

lemma step_room_log:
  "room_log (rooms (fst (step st i))) r = room_log (rooms st) r \<or>
   (\<exists>data. room_log (rooms (fst (step st i))) r =
        room_log (rooms st) r @ [createMessage (now i) (date i) data]
        \<and> d_isPrivate data = None) \<or>
   (\<exists>k x. room_log (rooms (fst (step st i))) r =
        update_first (\<lambda>m. msg_id m = k)
          (\<lambda>m. m\<lparr>reactions := reactions m @ [x]\<rparr>) (room_log (rooms st) r)) \<or>
   (\<exists>k n. room_log (rooms (fst (step st i))) r =
        update_first (\<lambda>m. msg_id m = k)
          (\<lambda>m. m\<lparr>readers := readers m @ [n]\<rparr>) (room_log (rooms st) r))"
proof (cases "event i")
  case Connection
  then show ?thesis by (simp add: step_def on_connection_def)
next
  case (User_join x2)
  then show ?thesis by (simp add: step_def on_user_join_def Let_def)
next
  case (Join_room x3)
  then show ?thesis
    by (auto simp: step_def on_join_room_def Let_def room_log_update split: option.splits)
      (simp add: room_log_def)
next
  case (Send_message x4)
  then show ?thesis
    by (cases "map_of (users st) (socket_id i)")
      (auto simp: step_def on_send_message_def Let_def room_log_update)
next
  case (Send_private x51 x52)
  then show ?thesis
    by (simp add: step_def on_private_message_def Let_def split: option.splits)
next
  case (Send_file x61 x62)
  then show ?thesis
    by (cases "map_of (users st) (socket_id i)")
      (auto simp: step_def on_send_file_def Let_def room_log_update)
next
  case (Typing x7)
  then show ?thesis by (simp add: step_def on_typing_def Let_def split: option.splits)
next
  case (React_message k x)
  have "fst (step st i) = st\<lparr>rooms := fst (react_rooms (socket_id i) k x (rooms st))\<rparr>"
    using React_message by (simp add: step_def on_react_message_def split: prod.splits)
  then show ?thesis
    using room_log_react [of "socket_id i" k x "rooms st" r] by auto
next
  case (Read_message k)
  show ?thesis
  proof (cases "map_of (users st) (socket_id i)")
    case None
    then show ?thesis using Read_message by (simp add: step_def on_read_message_def)
  next
    case (Some u)
    have "fst (step st i) = st\<lparr>rooms := fst (read_rooms (username u) k (rooms st))\<rparr>"
      using Read_message Some by (simp add: step_def on_read_message_def split: prod.splits)
    then show ?thesis
      using room_log_read [of "username u" k "rooms st" r] by auto
  qed
next
  case (Load_older_messages x101 x102 x103)
  then show ?thesis by (simp add: step_def)
next
  case Disconnect
  then show ?thesis by (simp add: step_def on_disconnect_def Let_def split: option.splits)
qed

lemma step_log_ext: "log_ext (room_log (rooms st) r) (room_log (rooms (fst (step st i))) r)"
proof -
  have a: "\<And>x m. msg_ext m (m\<lparr>reactions := reactions m @ [x]\<rparr>)"
    by (simp add: msg_ext_def)
  have b: "\<And>n m. msg_ext m (m\<lparr>readers := readers m @ [n]\<rparr>)"
    by (simp add: msg_ext_def)
  show ?thesis
    using step_room_log [of st i r] log_ext_refl log_ext_append
      log_ext_update_first [OF a] log_ext_update_first [OF b]
    by (elim disjE exE) auto
qed

lemma run_log_ext: "log_ext (room_log (rooms st) r) (room_log (rooms (run st es)) r)"
proof (induction es arbitrary: st)
  case Nil
  then show ?case by (simp add: log_ext_refl)
next
  case (Cons i es)
  show ?case using log_ext_trans [OF step_log_ext Cons] by simp
qed

lemma step_log_ids:
  "map msg_id (room_log (rooms (fst (step st i))) r) = map msg_id (room_log (rooms st) r) \<or>
   map msg_id (room_log (rooms (fst (step st i))) r) =
     map msg_id (room_log (rooms st) r) @ [now i]"
  using step_room_log [of st i r]
  by (elim disjE exE) (auto simp: map_update_first createMessage_def)

subsection \<open>The messages that emissions create\<close>

lemma created_append [simp]: "created (a @ b) = created a @ created b"
  by (simp add: created_def)

lemma created_react [simp]: "created (snd (react_rooms s k x rs)) = []"
  by (induction rs) (auto simp: created_def split: option.splits prod.splits)

lemma created_read [simp]: "created (snd (read_rooms n k rs)) = []"
proof (induction rs)
  case Nil
  then show ?case by (simp add: created_def)
next
  case (Cons p rs)
  obtain q l where p: "p = (q, l)" by (cases p)
  obtain rs' out where rr: "read_rooms n k rs = (rs', out)" by (cases "read_rooms n k rs")
  show ?case using Cons p rr
    by (cases "find (\<lambda>m. msg_id m = k) l") (auto simp: created_def)
qed

lemma step_created:
  "map msg_id (created (snd (step st i))) = [] \<or> map msg_id (created (snd (step st i))) = [now i]"
proof (cases "event i")
  case (React_message k x)
  then have "snd (step st i) = snd (react_rooms (socket_id i) k x (rooms st))"
    by (simp add: step_def on_react_message_def split: prod.splits)
  then show ?thesis by simp
next
  case (Read_message k)
  show ?thesis
  proof (cases "map_of (users st) (socket_id i)")
    case None
    then show ?thesis using Read_message
      by (simp add: step_def on_read_message_def created_def)
  next
    case (Some u)
    then have "snd (step st i) = snd (read_rooms (username u) k (rooms st))"
      using Read_message by (simp add: step_def on_read_message_def split: prod.splits)
    then show ?thesis by simp
  qed
qed (auto simp: step_def created_def on_connection_def on_user_join_def on_join_room_def
      on_send_message_def on_private_message_def on_send_file_def on_typing_def
      on_disconnect_def createMessage_def Let_def
      split: option.splits)

lemma created_ids_now:
  "set (map msg_id (created (emitted st es))) \<subseteq> set (map now es)"
proof (induction es arbitrary: st)
  case Nil
  then show ?case by (simp add: created_def)
next
  case (Cons i es)
  have "set (map msg_id (created (snd (step st i)))) \<subseteq> {now i}"
    using step_created [of st i] by auto
  with Cons [of "fst (step st i)"] show ?case by auto
qed

lemma created_sorted:
  "sorted (map now es) \<Longrightarrow> sorted (map msg_id (created (emitted st es)))"
proof (induction es arbitrary: st)
  case Nil
  then show ?case by (simp add: created_def)
next
  case (Cons i es)
  from Cons.prems have s: "sorted (map now es)" and le: "\<forall>j\<in>set es. now i \<le> now j"
    by auto
  have rest: "\<forall>x\<in>set (map msg_id (created (emitted (fst (step st i)) es))). now i \<le> x"
    using created_ids_now [of "fst (step st i)" es] le by auto
  have hd: "\<forall>x\<in>set (map msg_id (created (snd (step st i)))). x = now i"
    using step_created [of st i] by auto
  have "sorted (map msg_id (created (snd (step st i))))"
    using step_created [of st i] by auto
  with Cons.IH [OF s, of "fst (step st i)"] rest hd show ?case
    by (auto simp: sorted_append)
qed

lemma logs_sorted_run:
  assumes "sorted (map now es)"
    and "\<forall>r. sorted (map msg_id (room_log (rooms st) r))"
    and "\<forall>r. \<forall>x\<in>set (map msg_id (room_log (rooms st) r)). \<forall>j\<in>set es. x \<le> now j"
  shows "sorted (map msg_id (room_log (rooms (run st es)) r))"
  using assms
proof (induction es arbitrary: st)
  case Nil
  then show ?case by simp
next
  case (Cons i es)
  let ?st = "fst (step st i)"
  from Cons.prems(1) have s: "sorted (map now es)" and le: "\<forall>j\<in>set es. now i \<le> now j"
    by auto
  have a: "\<forall>r. sorted (map msg_id (room_log (rooms ?st) r))"
  proof
    fix q
    show "sorted (map msg_id (room_log (rooms ?st) q))"
      using step_log_ids [of st i q] Cons.prems(2,3) by (auto simp: sorted_append)
  qed
  have b: "\<forall>r. \<forall>x\<in>set (map msg_id (room_log (rooms ?st) r)). \<forall>j\<in>set es. x \<le> now j"
  proof (intro allI ballI)
    fix q x j
    assume x: "x \<in> set (map msg_id (room_log (rooms ?st) q))" and j: "j \<in> set es"
    have "set (map msg_id (room_log (rooms ?st) q))
        \<subseteq> insert (now i) (set (map msg_id (room_log (rooms st) q)))"
      using same_or_snoc_set [OF step_log_ids [of st i q]] .
    with x have "x \<in> set (map msg_id (room_log (rooms st) q)) \<or> x = now i" by blast
    then show "x \<le> now j" using Cons.prems(3) le j by auto
  qed
  show ?case using Cons.IH [OF s a b] by simp
qed

subsection \<open>Read receipts\<close>

lemma read_rooms_idem:
  "read_rooms n k (fst (read_rooms n k rs)) = (fst (read_rooms n k rs), [])"
proof (induction rs)
  case Nil
  then show ?case by simp
next
  case (Cons p rs)
  obtain r l where p: "p = (r, l)" by (cases p)
  obtain rs' out where rr: "read_rooms n k rs = (rs', out)" by (cases "read_rooms n k rs")
  with Cons have ih: "read_rooms n k rs' = (rs', [])" by simp
  show ?case
  proof (cases "find (\<lambda>m. msg_id m = k) l")
    case None
    then show ?thesis using p rr ih by simp
  next
    case (Some m)
    show ?thesis
    proof (cases "n \<in> set (readers m)")
      case True
      then show ?thesis using p rr ih Some by simp
    next
      case False
      have "msg_id m = k" using find_Some_P [OF Some] .
      then have "find (\<lambda>m. msg_id m = k)
          (update_first (\<lambda>m. msg_id m = k) (\<lambda>m. m\<lparr>readers := readers m @ [n]\<rparr>) l)
          = Some (m\<lparr>readers := readers m @ [n]\<rparr>)"
        using find_update_first [OF Some, of "\<lambda>m. m\<lparr>readers := readers m @ [n]\<rparr>"] by simp
      then show ?thesis using p rr ih Some False by simp
    qed
  qed
qed

subsection \<open>Membership\<close>

lemma member_inv_init: "member_inv init"
  by (simp add: member_inv_def init_def)

lemma step_frame:
  assumes "event i \<noteq> Connection" "event i \<noteq> Disconnect"
    "\<forall>n. event i \<noteq> User_join n" "\<forall>r. event i \<noteq> Join_room r"
  shows "users (fst (step st i)) = users st \<and> sockets (fst (step st i)) = sockets st \<and>
         adapter (fst (step st i)) = adapter st"
  using assms
  by (cases "event i")
    (auto simp: step_def on_send_message_def on_private_message_def on_send_file_def
      on_typing_def on_react_message_def on_read_message_def Let_def
      split: option.splits prod.splits)

lemma member_inv_connection: "member_inv st \<Longrightarrow> member_inv (fst (on_connection s st))"
  unfolding member_inv_def on_connection_def by auto

lemma member_inv_disconnect: "member_inv st \<Longrightarrow> member_inv (fst (on_disconnect s st))"
  unfolding member_inv_def on_disconnect_def
  by (cases "map_of (users st) s") (auto simp: Let_def delete_conv')

lemma member_inv_user_join:
  assumes "member_inv st" "s \<in> sockets st" "map_of (users st) s = None" "s \<noteq> ''global''"
  shows "member_inv (fst (on_user_join s n st))"
  using assms unfolding member_inv_def on_user_join_def
  by (auto simp: Let_def update_conv')

lemma member_inv_join_room:
  assumes "member_inv st" "r \<noteq> []" "r \<noteq> s"
  shows "member_inv (fst (on_join_room s r st))"
proof (cases "map_of (users st) s")
  case None
  then show ?thesis using assms by (simp add: on_join_room_def)
next
  case (Some u)
  from assms(1) Some have u: "s \<in> sockets st" "room u \<noteq> []" "room u \<noteq> s"
    unfolding member_inv_def by blast+
  from assms(1) have ad: "\<And>s c. (s, c) \<in> adapter st \<longleftrightarrow>
        (s \<in> sockets st \<and> c = s) \<or> (\<exists>u. map_of (users st) s = Some u \<and> room u = c)"
    unfolding member_inv_def by blast
  from assms(1) have us: "\<And>s u. map_of (users st) s = Some u \<Longrightarrow>
        s \<in> sockets st \<and> room u \<noteq> [] \<and> room u \<noteq> s"
    unfolding member_inv_def by blast
  let ?st = "fst (on_join_room s r st)"
  have e1: "map_of (users ?st) = (map_of (users st))(s \<mapsto> u\<lparr>room := r\<rparr>)"
    using Some by (simp add: on_join_room_def Let_def update_conv')
  have e2: "sockets ?st = sockets st"
    using Some by (simp add: on_join_room_def Let_def)
  have e3: "adapter ?st = insert (s, r) (adapter st - {(s, room u)})"
    using Some u by (simp add: on_join_room_def Let_def)
  show ?thesis
    unfolding member_inv_def e1 e2 e3
  proof (intro conjI allI impI)
    fix s' u'
    assume a: "((map_of (users st))(s \<mapsto> u\<lparr>room := r\<rparr>)) s' = Some u'"
    show "s' \<in> sockets st" using a u us by (cases "s' = s") auto
    show "room u' \<noteq> []" using a assms us by (cases "s' = s") auto
    show "room u' \<noteq> s'" using a assms us by (cases "s' = s") auto
  next
    fix s' c
    show "((s', c) \<in> insert (s, r) (adapter st - {(s, room u)})) =
          (s' \<in> sockets st \<and> c = s' \<or>
           (\<exists>ua. ((map_of (users st))(s \<mapsto> u\<lparr>room := r\<rparr>)) s' = Some ua \<and> room ua = c))"
    proof (cases "s' = s")
      case True
      then show ?thesis using ad [of s c] Some u assms by auto
    next
      case False
      then show ?thesis using ad [of s' c] by auto
    qed
  qed
qed

lemma member_inv_step:
  assumes "member_inv st" "admissible st i"
  shows "member_inv (fst (step st i))"
proof (cases "event i")
  case Connection
  then show ?thesis using assms member_inv_connection by (simp add: step_def)
next
  case (User_join n)
  then show ?thesis using assms member_inv_user_join
    by (simp add: step_def admissible_def)
next
  case (Join_room r)
  then show ?thesis using assms member_inv_join_room
    by (simp add: step_def admissible_def)
next
  case Disconnect
  then show ?thesis using assms member_inv_disconnect by (simp add: step_def)
qed (use assms step_frame [of i st] in \<open>simp_all add: member_inv_def\<close>)

lemma member_inv_run:
  "member_inv st \<Longrightarrow> admissible_run st es \<Longrightarrow> member_inv (run st es)"
  by (induction es arbitrary: st) (auto simp: member_inv_step)

lemma member_inv_members:
  assumes "member_inv st"
  shows "members st r = {s \<in> sockets st. current_room st s = Some r} \<union> (sockets st \<inter> {r})"
  using assms unfolding member_inv_def members_def current_room_def by auto

subsection \<open>Private messages and logs\<close>

lemma public_logs_step: "public_logs st \<Longrightarrow> public_logs (fst (step st i))"
  unfolding public_logs_def
proof (intro allI ballI)
  fix r m
  assume a: "\<forall>r. \<forall>m\<in>set (room_log (rooms st) r). \<not> isPrivate m"
    and m: "m \<in> set (room_log (rooms (fst (step st i))) r)"
  have f1: "\<And>y x. isPrivate (y\<lparr>reactions := reactions y @ [x]\<rparr>) = isPrivate y"
    by simp
  have f2: "\<And>y n. isPrivate (y\<lparr>readers := readers y @ [n]\<rparr>) = isPrivate y"
    by simp
  from step_room_log [of st i r]
  show "\<not> isPrivate m"
  proof (elim disjE exE conjE)
    assume "room_log (rooms (fst (step st i))) r = room_log (rooms st) r"
    with a m show ?thesis by simp
  next
    fix data
    assume "room_log (rooms (fst (step st i))) r =
        room_log (rooms st) r @ [createMessage (now i) (date i) data]"
      and "d_isPrivate data = None"
    with a m show ?thesis by (auto simp: createMessage_def)
  next
    fix k x
    assume "room_log (rooms (fst (step st i))) r =
        update_first (\<lambda>m. msg_id m = k) (\<lambda>m. m\<lparr>reactions := reactions m @ [x]\<rparr>)
          (room_log (rooms st) r)"
    with m have "m \<in> set (update_first (\<lambda>m. msg_id m = k)
        (\<lambda>m. m\<lparr>reactions := reactions m @ [x]\<rparr>) (room_log (rooms st) r))"
      by simp
    from set_update_first [OF this]
    have "m \<in> set (room_log (rooms st) r) \<or>
        (\<exists>y\<in>set (room_log (rooms st) r). m = y\<lparr>reactions := reactions y @ [x]\<rparr>)" .
    with a f1 show ?thesis by blast
  next
    fix k n
    assume "room_log (rooms (fst (step st i))) r =
        update_first (\<lambda>m. msg_id m = k) (\<lambda>m. m\<lparr>readers := readers m @ [n]\<rparr>)
          (room_log (rooms st) r)"
    with m have "m \<in> set (update_first (\<lambda>m. msg_id m = k)
        (\<lambda>m. m\<lparr>readers := readers m @ [n]\<rparr>) (room_log (rooms st) r))"
      by simp
    from set_update_first [OF this]
    have "m \<in> set (room_log (rooms st) r) \<or>
        (\<exists>y\<in>set (room_log (rooms st) r). m = y\<lparr>readers := readers y @ [n]\<rparr>)" .
    with a f2 show ?thesis by blast
  qed
qed

lemma public_logs_run: "public_logs st \<Longrightarrow> public_logs (run st es)"
  by (induction es arbitrary: st) (auto simp: public_logs_step)

lemma public_logs_init: "public_logs init"
  by (simp add: public_logs_def init_def room_log_def)

lemma private_step:
  assumes "map_of (users st) s = Some u"
  shows "step st \<lparr>socket_id = s, now = t, date = d, event = Send_private to body\<rparr> =
     (st, [(To_room_except to s, Private_message
              (createMessage t d \<lparr>d_sender = username u, d_senderId = s, d_message = Some body,
                 d_room = None, d_isPrivate = Some True,
                 d_fileData = None, d_fileName = None\<rparr>)),
           (To_self s, Private_message
              (createMessage t d \<lparr>d_sender = username u, d_senderId = s, d_message = Some body,
                 d_room = None, d_isPrivate = Some True,
                 d_fileData = None, d_fileName = None\<rparr>))])"
  using assms by (simp add: step_def on_private_message_def Let_def)

subsection \<open>Typing marks\<close>

lemma step_users_typing_other:
  assumes "event i \<noteq> Disconnect" "\<forall>b. event i \<noteq> Typing b" "\<forall>n. event i \<noteq> User_join n"
    "\<forall>r. event i \<noteq> Join_room r"
  shows "users (fst (step st i)) = users st \<and> typingUsers (fst (step st i)) = typingUsers st"
  using assms
  by (cases "event i")
    (auto simp: step_def on_connection_def on_send_message_def on_private_message_def
      on_send_file_def on_react_message_def on_read_message_def Let_def
      split: option.splits prod.splits)

lemma typing_inv_step: "typing_inv st \<Longrightarrow> typing_inv (fst (step st i))"
proof (cases "event i")
  case (User_join n)
  assume "typing_inv st"
  then show ?thesis using User_join
    by (auto simp: typing_inv_def step_def on_user_join_def Let_def update_conv')
next
  case (Join_room r)
  assume "typing_inv st"
  then show ?thesis using Join_room
    by (auto simp: typing_inv_def step_def on_join_room_def Let_def update_conv'
        split: option.splits)
next
  case (Typing b)
  assume "typing_inv st"
  then show ?thesis using Typing
    by (auto simp: typing_inv_def step_def on_typing_def Let_def update_conv' delete_conv'
        split: option.splits)
next
  case Disconnect
  assume "typing_inv st"
  then show ?thesis using Disconnect
    by (auto simp: typing_inv_def step_def on_disconnect_def Let_def delete_conv'
        split: option.splits)
qed (use step_users_typing_other [of i st] in \<open>simp_all add: typing_inv_def\<close>)

lemma typing_inv_run: "typing_inv st \<Longrightarrow> typing_inv (run st es)"
  by (induction es arbitrary: st) (auto simp: typing_inv_step)

lemma typing_inv_init: "typing_inv init"
  by (simp add: typing_inv_def init_def)

subsection \<open>The loop of \<open>read_message\<close>, room by room\<close>

lemma read_rooms_eq:
  "read_rooms n k rs =
     (map (\<lambda>p. (fst p, read_log n k (snd p))) rs,
      concat (map (\<lambda>p. read_note n k (fst p) (snd p)) rs))"
proof (induction rs)
  case Nil
  then show ?case by simp
next
  case (Cons p rs)
  obtain r l where p: "p = (r, l)" by (cases p)
  show ?case using Cons p
    by (cases "find (\<lambda>m. msg_id m = k) l") (simp_all add: read_log_def read_note_def)
qed

lemma find_first_with_id:
  "find (\<lambda>m. msg_id m = k) l = Some m \<longleftrightarrow> (\<exists>i. first_with_id k l i \<and> m = l ! i)"
  unfolding find_Some_iff first_with_id_def by auto

lemma first_with_id_unique: "first_with_id k l i \<Longrightarrow> first_with_id k l j \<Longrightarrow> i = j"
  unfolding first_with_id_def by (meson nat_neq_iff)

lemma nth_update_first_if:
  "i < length xs \<Longrightarrow>
   update_first P f xs ! i = (if P (xs ! i) \<and> (\<forall>j<i. \<not> P (xs ! j)) then f (xs ! i) else xs ! i)"
proof (induction xs arbitrary: i)
  case Nil
  then show ?case by simp
next
  case (Cons x xs)
  show ?case
  proof (cases i)
    case 0
    then show ?thesis by simp
  next
    case (Suc j)
    then have j: "j < length xs" using Cons.prems by simp
    show ?thesis
      unfolding Suc using Cons.IH [OF j] by (auto simp: All_less_Suc2)
  qed
qed

lemma length_read_log [simp]: "length (read_log n k l) = length l"
  by (simp add: read_log_def split: option.splits)

lemma read_log_nth:
  assumes "i < length l"
  shows "read_log n k l ! i =
     (if first_with_id k l i \<and> n \<notin> set (readers (l ! i))
      then (l ! i)\<lparr>readers := readers (l ! i) @ [n]\<rparr> else l ! i)"
proof (cases "find (\<lambda>m. msg_id m = k) l")
  case None
  then have "\<not> first_with_id k l i"
    using find_first_with_id [of k l] by (metis option.distinct(1))
  moreover have "read_log n k l = l"
    using None by (simp add: read_log_def)
  ultimately show ?thesis by simp
next
  case (Some m)
  then obtain j where j: "first_with_id k l j" "m = l ! j"
    using find_first_with_id by blast
  show ?thesis
  proof (cases "n \<in> set (readers m)")
    case True
    have "first_with_id k l i \<Longrightarrow> n \<in> set (readers (l ! i))"
      using first_with_id_unique [OF j(1)] j(2) True by blast
    moreover have "read_log n k l = l"
      using Some True by (simp add: read_log_def)
    ultimately show ?thesis by auto
  next
    case False
    have a: "first_with_id k l i \<Longrightarrow> n \<notin> set (readers (l ! i))"
      using first_with_id_unique [OF j(1)] j(2) False by blast
    have b: "first_with_id k l i \<longleftrightarrow> msg_id (l ! i) = k \<and> (\<forall>j<i. msg_id (l ! j) \<noteq> k)"
      using assms by (simp add: first_with_id_def)
    have c: "read_log n k l =
        update_first (\<lambda>m. msg_id m = k) (\<lambda>m. m\<lparr>readers := readers m @ [n]\<rparr>) l"
      using Some False by (simp add: read_log_def)
    have d: "read_log n k l ! i =
        (if first_with_id k l i then (l ! i)\<lparr>readers := readers (l ! i) @ [n]\<rparr> else l ! i)"
      unfolding c b using nth_update_first_if [OF assms] by simp
    show ?thesis
    proof (cases "first_with_id k l i")
      case True
      then show ?thesis using d a by simp
    next
      case False
      then show ?thesis using d by simp
    qed
  qed
qed

lemma room_log_map:
  assumes "g [] = []"
  shows "room_log (map (\<lambda>p. (fst p, g (snd p))) rs) r = g (room_log rs r)"
  using assms by (induction rs) (auto simp: room_log_def)

lemma read_log_Nil [simp]: "read_log n k [] = []"
  by (simp add: read_log_def)

lemma read_note_iff:
  "e \<in> set (read_note n k r l) \<longleftrightarrow>
     (\<exists>i. first_with_id k l i \<and> n \<notin> set (readers (l ! i)) \<and>
          e = (To_room r, Message_read k (readers (l ! i) @ [n])))"
proof (cases "find (\<lambda>m. msg_id m = k) l")
  case None
  then have "\<And>i. \<not> first_with_id k l i"
    using find_first_with_id [of k l] by (metis option.distinct(1))
  moreover have "read_note n k r l = []"
    using None by (simp add: read_note_def)
  ultimately show ?thesis by simp
next
  case (Some m)
  then obtain j where j: "first_with_id k l j" "m = l ! j"
    using find_first_with_id by blast
  have u: "\<And>i. first_with_id k l i \<Longrightarrow> i = j"
    using first_with_id_unique [OF _ j(1)] by blast
  have rn: "read_note n k r l =
      (if n \<notin> set (readers (l ! j))
       then [(To_room r, Message_read k (readers (l ! j) @ [n]))] else [])"
    using Some j(2) by (simp add: read_note_def)
  show ?thesis
  proof
    assume "e \<in> set (read_note n k r l)"
    then have "n \<notin> set (readers (l ! j)) \<and>
        e = (To_room r, Message_read k (readers (l ! j) @ [n]))"
      unfolding rn by (simp split: if_splits)
    with j(1) show "\<exists>i. first_with_id k l i \<and> n \<notin> set (readers (l ! i)) \<and>
          e = (To_room r, Message_read k (readers (l ! i) @ [n]))" by blast
  next
    assume "\<exists>i. first_with_id k l i \<and> n \<notin> set (readers (l ! i)) \<and>
          e = (To_room r, Message_read k (readers (l ! i) @ [n]))"
    then obtain i where i: "first_with_id k l i" "n \<notin> set (readers (l ! i))"
      "e = (To_room r, Message_read k (readers (l ! i) @ [n]))" by blast
    from u [OF i(1)] i show "e \<in> set (read_note n k r l)"
      unfolding rn by simp
  qed
qed

lemma distinct_read_notes:
  "distinct (map fst rs) \<Longrightarrow>
   distinct (map fst (concat (map (\<lambda>p. read_note n k (fst p) (snd p)) rs))) \<and>
   set (map fst (concat (map (\<lambda>p. read_note n k (fst p) (snd p)) rs)))
     \<subseteq> To_room ` set (map fst rs)"
proof (induction rs)
  case Nil
  then show ?case by simp
next
  case (Cons p rs)
  have h: "map fst (read_note n k (fst p) (snd p)) = [] \<or>
      map fst (read_note n k (fst p) (snd p)) = [To_room (fst p)]"
    by (simp add: read_note_def split: option.splits)
  from Cons have ih: "distinct (map fst (concat (map (\<lambda>p. read_note n k (fst p) (snd p)) rs)))"
    "set (map fst (concat (map (\<lambda>p. read_note n k (fst p) (snd p)) rs)))
     \<subseteq> To_room ` set (map fst rs)" and np: "fst p \<notin> set (map fst rs)"
    by auto
  from ih(2) np have "To_room (fst p) \<notin>
      set (map fst (concat (map (\<lambda>p. read_note n k (fst p) (snd p)) rs)))"
    by auto
  with h ih show ?case by (elim disjE) auto
qed

lemma distinct_rooms_step:
  "distinct (map fst (rooms st)) \<Longrightarrow> distinct (map fst (rooms (fst (step st i))))"
proof (cases "event i")
  case (React_message k x)
  have "map fst (fst (react_rooms s k x rs)) = map fst rs" for s rs
    by (induction rs) (auto split: option.splits prod.splits)
  moreover have "rooms (fst (step st i)) = fst (react_rooms (socket_id i) k x (rooms st))"
    using React_message by (simp add: step_def on_react_message_def split: prod.splits)
  moreover assume "distinct (map fst (rooms st))"
  ultimately show ?thesis by simp
next
  case (Read_message k)
  assume "distinct (map fst (rooms st))"
  then show ?thesis using Read_message
    by (simp add: step_def on_read_message_def read_rooms_eq comp_def split: option.splits)
qed (auto simp: step_def on_connection_def on_user_join_def on_join_room_def
      on_send_message_def on_private_message_def on_send_file_def on_typing_def
      on_disconnect_def Let_def distinct_update split: option.splits)

lemma distinct_rooms_run:
  "distinct (map fst (rooms st)) \<Longrightarrow> distinct (map fst (rooms (run st es)))"
  by (induction es arbitrary: st) (auto simp: distinct_rooms_step)

subsection \<open>Room histories\<close>

lemma react_rooms_notes:
  "e \<in> set (snd (react_rooms s k x rs)) \<Longrightarrow> \<exists>r. e = (To_room r, Message_reaction k x)"
proof (induction rs)
  case Nil
  then show ?case by simp
next
  case (Cons p rs)
  obtain q l where p: "p = (q, l)" by (cases p)
  show ?case
  proof (cases "find (\<lambda>m. msg_id m = k) l")
    case None
    then show ?thesis using Cons p
      by (cases "react_rooms s k x rs") auto
  next
    case (Some m)
    then show ?thesis using Cons.prems p by auto
  qed
qed

lemma read_rooms_notes:
  assumes "e \<in> set (snd (read_rooms n k rs))"
  shows "\<exists>r x. e = (To_room r, Message_read k x)"
proof -
  from assms obtain p where "e \<in> set (read_note n k (fst p) (snd p))"
    unfolding read_rooms_eq by auto
  then show ?thesis unfolding read_note_iff by blast
qed

lemma step_room_messages:
  assumes "(tg, Room_messages l) \<in> set (snd (step st i))"
  shows "\<exists>r. l = room_log (rooms (fst (step st i))) r"
proof (cases "event i")
  case (React_message k x)
  then have "snd (step st i) = snd (react_rooms (socket_id i) k x (rooms st))"
    by (simp add: step_def on_react_message_def split: prod.splits)
  with assms have "(tg, Room_messages l) \<in> set (snd (react_rooms (socket_id i) k x (rooms st)))"
    by simp
  from react_rooms_notes [OF this] show ?thesis by simp
next
  case (Read_message k)
  show ?thesis
  proof (cases "map_of (users st) (socket_id i)")
    case None
    then show ?thesis using Read_message assms
      by (simp add: step_def on_read_message_def)
  next
    case (Some u)
    then have "snd (step st i) = snd (read_rooms (username u) k (rooms st))"
      using Read_message by (simp add: step_def on_read_message_def split: prod.splits)
    with assms have "(tg, Room_messages l) \<in> set (snd (read_rooms (username u) k (rooms st)))"
      by simp
    from read_rooms_notes [OF this] show ?thesis by simp
  qed
next
  case (Join_room r)
  show ?thesis
  proof (cases "map_of (users st) (socket_id i)")
    case None
    then show ?thesis using Join_room assms by (simp add: step_def on_join_room_def)
  next
    case (Some u)
    then show ?thesis using Join_room assms
      by (auto simp: step_def on_join_room_def Let_def)
  qed
qed (use assms in \<open>auto simp: step_def on_connection_def on_user_join_def
      on_send_message_def on_private_message_def on_send_file_def on_typing_def
      on_disconnect_def Let_def split: option.splits\<close>)

lemma emitted_room_messages:
  assumes "public_logs st" "(tg, Room_messages l) \<in> set (emitted st es)"
  shows "\<forall>m\<in>set l. \<not> isPrivate m"
  using assms
proof (induction es arbitrary: st)
  case Nil
  then show ?case by simp
next
  case (Cons i es)
  have p: "public_logs (fst (step st i))"
    using public_logs_step [OF Cons.prems(1)] .
  from Cons.prems(2) consider "(tg, Room_messages l) \<in> set (snd (step st i))"
    | "(tg, Room_messages l) \<in> set (emitted (fst (step st i)) es)"
    by auto
  then show ?case
  proof cases
    case 1
    then obtain r where "l = room_log (rooms (fst (step st i))) r"
      using step_room_messages by blast
    with p show ?thesis unfolding public_logs_def by blast
  next
    case 2
    with Cons.IH [OF p] show ?thesis .
  qed
qed

subsection \<open>Unknown ids and rooms\<close>

lemma find_None_all: "\<forall>m\<in>set l. \<not> P m \<Longrightarrow> find P l = None"
  by (induction l) auto

lemma react_rooms_unknown:
  "\<forall>p\<in>set rs. \<forall>m\<in>set (snd p). msg_id m \<noteq> k \<Longrightarrow> react_rooms s k x rs = (rs, [])"
proof (induction rs)
  case Nil
  then show ?case by simp
next
  case (Cons p rs)
  obtain q l where p: "p = (q, l)" by (cases p)
  from Cons.prems p have "find (\<lambda>m. msg_id m = k) l = None"
    by (intro find_None_all) auto
  moreover from Cons have "react_rooms s k x rs = (rs, [])" by simp
  ultimately show ?case using p by simp
qed

lemma read_rooms_unknown:
  "\<forall>p\<in>set rs. \<forall>m\<in>set (snd p). msg_id m \<noteq> k \<Longrightarrow> read_rooms n k rs = (rs, [])"
proof (induction rs)
  case Nil
  then show ?case by simp
next
  case (Cons p rs)
  obtain q l where p: "p = (q, l)" by (cases p)
  from Cons.prems p have "find (\<lambda>m. msg_id m = k) l = None"
    by (intro find_None_all) auto
  moreover from Cons have "read_rooms n k rs = (rs, [])" by simp
  ultimately show ?case using p by simp
qed

lemma update_absent: "map_of al k = None \<Longrightarrow> AList.update k v al = al @ [(k, v)]"
  by (induction al) (auto split: if_splits)

lemmas handler_defs = step_def at_def on_connection_def on_user_join_def on_join_room_def
  on_send_message_def on_private_message_def on_send_file_def on_typing_def
  on_react_message_def on_read_message_def on_disconnect_def createMessage_def
  or_default_def or_null_def room_log_def init_def Let_def

lemmas scen_defs = joined_a_def one_send_def two_sends_def rejoin_def blank_room_def
  switching_def pair_def eavesdrop_def namesakes_def shared_id_def typing_a_def lurker_def

section \<open>The claims\<close>

text \<open>
  Claim C1, as amended.  Along every run of admissible inputs (a connection registers at
  most once, and a room to switch to is named neither by the empty string nor by the
  connection's own id), the connected members of every channel \<open>r\<close> are exactly the
  sessions whose current room is \<open>r\<close>, together with the connection whose id is \<open>r\<close>
  when there is one: Socket.IO subscribes every socket to the channel of its own id.  So a
  session is a member of at most one room besides its own channel, and a switch to
  \<open>r\<close> adds the session to \<open>r\<close>, makes \<open>r\<close> its current room and, when it
  comes from another room, removes it from that one.
\<close>

theorem membership_consistent:
  assumes "admissible_run init es"
  shows "(\<forall>r. members (run init es) r =
            {s \<in> sockets (run init es). current_room (run init es) s = Some r}
            \<union> (sockets (run init es) \<inter> {r})) \<and>
         (\<forall>s r r'. s \<in> members (run init es) r \<and> s \<in> members (run init es) r' \<and>
              r \<noteq> s \<and> r' \<noteq> s \<longrightarrow> r = r') \<and>
         (\<forall>s old r. current_room (run init es) s = Some old \<and> r \<noteq> [] \<and> r \<noteq> s \<longrightarrow>
              members (fst (on_join_room s r (run init es))) r
                = insert s (members (run init es) r) \<and>
              current_room (fst (on_join_room s r (run init es))) s = Some r \<and>
              (old \<noteq> r \<longrightarrow> members (fst (on_join_room s r (run init es))) old
                = members (run init es) old - {s}))"
proof -
  let ?st = "run init es"
  have inv: "member_inv ?st"
    using member_inv_run [OF member_inv_init assms] .
  have m: "\<And>r. members ?st r =
      {s \<in> sockets ?st. current_room ?st s = Some r} \<union> (sockets ?st \<inter> {r})"
    using member_inv_members [OF inv] .
  have one: "\<And>s r r'. s \<in> members ?st r \<and> s \<in> members ?st r' \<and> r \<noteq> s \<and> r' \<noteq> s
      \<Longrightarrow> r = r'"
    unfolding m by auto
  have sw: "members (fst (on_join_room s r ?st)) r = insert s (members ?st r) \<and>
      current_room (fst (on_join_room s r ?st)) s = Some r \<and>
      (old \<noteq> r \<longrightarrow> members (fst (on_join_room s r ?st)) old = members ?st old - {s})"
    if h: "current_room ?st s = Some old \<and> r \<noteq> [] \<and> r \<noteq> s" for s old r
  proof -
    from h obtain u where u: "map_of (users ?st) s = Some u" "room u = old"
      by (auto simp: current_room_def)
    from inv u have su: "s \<in> sockets ?st" "old \<noteq> []" "old \<noteq> s"
      unfolding member_inv_def by blast+
    let ?st' = "fst (on_join_room s r ?st)"
    have inv': "member_inv ?st'" using member_inv_join_room [OF inv] h by blast
    have e1: "map_of (users ?st') = (map_of (users ?st))(s \<mapsto> u\<lparr>room := r\<rparr>)"
      using u by (simp add: on_join_room_def Let_def update_conv')
    have e2: "sockets ?st' = sockets ?st"
      using u by (simp add: on_join_room_def Let_def)
    have c: "\<And>x. current_room ?st' x = (if x = s then Some r else current_room ?st x)"
      by (simp add: current_room_def e1)
    show ?thesis
      unfolding member_inv_members [OF inv'] m using su h
      by (auto simp: e2 c)
  qed
  show ?thesis using m one sw by blast
qed

text \<open>
  The hypothesis holds of a run with a room switch and a disconnect; there the switched
  session is the only member of \<open>tech\<close> and the default room is empty.
\<close>

theorem membership_consistent_witness:
  "admissible_run init switching \<and>
   members (run init switching) ''tech'' = {''a''} \<and>
   members (run init switching) ''global'' = {}"
proof -
  have h: "admissible_run init switching"
    by (simp add: scen_defs handler_defs admissible_def)
  have e: "sockets (run init switching) = {''a''}"
    "current_room (run init switching) ''a'' = Some ''tech''"
    by (simp_all add: scen_defs handler_defs current_room_def)
  have m: "members (run init switching) r =
      {s \<in> sockets (run init switching). current_room (run init switching) s = Some r}
      \<union> (sockets (run init switching) \<inter> {r})" for r
    using membership_consistent [OF h, THEN conjunct1, THEN spec, of r] .
  have t: "members (run init switching) ''tech'' = {''a''}"
    unfolding m e(1) using e(2) by auto
  have g: "members (run init switching) ''global'' = {}"
    unfolding m e(1) using e(2) by auto
  show ?thesis using h t g by (intro conjI)
qed

text \<open>
  Claim C1 as stated fails.  A registered session is a member of the channel of its own
  id, which is nobody's current room; and the handler leaves the previous room only when
  its name is truthy, so after a switch to the room with the empty name and then to
  \<open>tech\<close> the session is a member of both while its current room is \<open>tech\<close>.
\<close>

theorem membership_counterexample:
  "members (run init blank_room) [] = {''a''} \<and>
   members (run init blank_room) ''tech'' = {''a''} \<and>
   members (run init blank_room) ''a'' = {''a''} \<and>
   current_room (run init blank_room) ''a'' = Some ''tech''"
  by (auto simp: scen_defs handler_defs members_def current_room_def)

text \<open>
  The amended claim says nothing about a connection that registers twice.  What the code
  does then: \<open>user_join\<close> resets the current room to \<open>global\<close> without leaving the
  room the session was in, so the session stays subscribed to \<open>tech\<close>.
\<close>

lemma rejoin_keeps_old_room:
  "members (run init rejoin) ''tech'' = {''a''} \<and>
   members (run init rejoin) ''global'' = {''a''} \<and>
   current_room (run init rejoin) ''a'' = Some ''global''"
  by (auto simp: scen_defs handler_defs members_def current_room_def)

text \<open>
  Claim C2, as amended.  A private message sent by a registered session changes no part of
  the state, in particular no log.  It is emitted twice, to the channel named by the
  recipient id except the channel named by the sender's id, and to the sender; so it
  reaches the sender and every connected socket that is subscribed to the recipient's
  channel and not to the sender's, which are the sender and the recipient alone when the
  recipient is the only subscriber of the channel of its id and is not subscribed to the
  sender's.  No log of a
  state reachable afterwards holds a private message, and no room history sent afterwards
  (\<open>room_messages\<close>) holds one.
\<close>

theorem private_message_delivery:
  assumes "map_of (users (run init es)) s = Some u"
  shows "fst (step (run init es)
              \<lparr>socket_id = s, now = t, date = d, event = Send_private to body\<rparr>)
           = run init es \<and>
         (\<exists>m. isPrivate m \<and>
              snd (step (run init es)
                    \<lparr>socket_id = s, now = t, date = d, event = Send_private to body\<rparr>)
                = [(To_room_except to s, Private_message m), (To_self s, Private_message m)]) \<and>
         reached (run init es)
            (snd (step (run init es)
                    \<lparr>socket_id = s, now = t, date = d, event = Send_private to body\<rparr>))
           = insert s (members (run init es) to - members (run init es) s) \<and>
         (members (run init es) to = {to} \<and> to \<notin> members (run init es) s \<longrightarrow>
            reached (run init es)
              (snd (step (run init es)
                    \<lparr>socket_id = s, now = t, date = d, event = Send_private to body\<rparr>))
             = {s, to}) \<and>
         (\<forall>es' r. \<forall>m\<in>set (room_log (rooms (run (run init es) es')) r). \<not> isPrivate m) \<and>
         (\<forall>es' tg l. (tg, Room_messages l) \<in> set (emitted (run init es) es') \<longrightarrow>
            (\<forall>m\<in>set l. \<not> isPrivate m))"
proof -
  let ?i = "\<lparr>socket_id = s, now = t, date = d, event = Send_private to body\<rparr>"
  let ?m = "createMessage t d \<lparr>d_sender = username u, d_senderId = s,
      d_message = Some body, d_room = None, d_isPrivate = Some True,
      d_fileData = None, d_fileName = None\<rparr>"
  have st: "step (run init es) ?i =
      (run init es, [(To_room_except to s, Private_message ?m), (To_self s, Private_message ?m)])"
    using private_step [OF assms] .
  have "public_logs (run (run init es) es')" for es'
    using public_logs_run [OF public_logs_run [OF public_logs_init]] .
  then have a: "\<forall>es' r. \<forall>m\<in>set (room_log (rooms (run (run init es) es')) r). \<not> isPrivate m"
    unfolding public_logs_def by blast
  have b: "isPrivate ?m"
    by (simp add: createMessage_def)
  have c1: "fst (step (run init es) ?i) = run init es"
    by (simp only: st fst_conv)
  have c2: "snd (step (run init es) ?i) =
      [(To_room_except to s, Private_message ?m), (To_self s, Private_message ?m)]"
    by (simp only: st snd_conv)
  have c3: "reached (run init es) (snd (step (run init es) ?i)) =
      insert s (members (run init es) to - members (run init es) s)"
    unfolding c2 reached_def by auto
  from b c2 have c2': "\<exists>m. isPrivate m \<and> snd (step (run init es) ?i) =
      [(To_room_except to s, Private_message m), (To_self s, Private_message m)]"
    by blast
  have c4: "members (run init es) to = {to} \<and> to \<notin> members (run init es) s \<longrightarrow>
      reached (run init es) (snd (step (run init es) ?i)) = {s, to}"
    unfolding c3 by auto
  have c5: "\<forall>es' tg l. (tg, Room_messages l) \<in> set (emitted (run init es) es') \<longrightarrow>
      (\<forall>m\<in>set l. \<not> isPrivate m)"
    using emitted_room_messages [OF public_logs_run [OF public_logs_init]] by blast
  show ?thesis
    using c1 c2' c3 c4 a c5 by (intro conjI)
qed

text \<open>With two registered sessions, the private message reaches exactly the two.\<close>

theorem private_message_delivery_witness:
  "map_of (users (run init pair)) ''a'' = Some \<lparr>username = ''al'', uid = ''a'', room = ''global''\<rparr> \<and>
   reached (run init pair)
     (snd (step (run init pair)
        \<lparr>socket_id = ''a'', now = 5, date = 5, event = Send_private ''b'' ''psst''\<rparr>))
     = {''a'', ''b''} \<and>
   rooms (fst (step (run init pair)
        \<lparr>socket_id = ''a'', now = 5, date = 5, event = Send_private ''b'' ''psst''\<rparr>)) = []"
proof -
  have h: "map_of (users (run init pair)) ''a''
      = Some \<lparr>username = ''al'', uid = ''a'', room = ''global''\<rparr>"
    by (simp add: scen_defs handler_defs)
  have mb: "members (run init pair) ''b'' = {''b''}"
    by (auto simp: scen_defs handler_defs members_def)
  have ma: "members (run init pair) ''a'' = {''a''}"
    by (auto simp: scen_defs handler_defs members_def)
  have rs: "rooms (run init pair) = []"
    by (simp add: scen_defs handler_defs)
  note t = private_message_delivery [OF h, of 5 5 "''b''" "''psst''"]
  have "reached (run init pair)
     (snd (step (run init pair)
        \<lparr>socket_id = ''a'', now = 5, date = 5, event = Send_private ''b'' ''psst''\<rparr>))
     = {''a'', ''b''}"
    using t [THEN conjunct2, THEN conjunct2, THEN conjunct2, THEN conjunct1] mb ma by simp
  moreover have "rooms (fst (step (run init pair)
        \<lparr>socket_id = ''a'', now = 5, date = 5, event = Send_private ''b'' ''psst''\<rparr>)) = []"
    using t [THEN conjunct1] rs by simp
  ultimately show ?thesis using h by (intro conjI)
qed

text \<open>
  Claim C2 as stated fails once a third session has switched to the room named by the
  recipient's id: the private message reaches three sessions.  (Nobody but \<open>a\<close> is
  subscribed to the channel of the sender \<open>a\<close>, so the exception removes only
  \<open>a\<close>, which gets its own copy.)
\<close>

theorem private_message_counterexample:
  "reached (run init eavesdrop)
     (snd (step (run init eavesdrop) (at 8 ''a'' (Send_private ''b'' ''psst''))))
     = {''a'', ''b'', ''c''}"
  by (auto simp: scen_defs handler_defs members_def reached_def)

text \<open>
  Claim C3 at every request for older messages: the server changes nothing, emits nothing
  and sends no reply, so the client's list of messages stays as it is and the caller's
  callback never runs.
\<close>

theorem load_older_messages_unanswered:
  "step st \<lparr>socket_id = s, now = t, date = d, event = Load_older_messages r p oldest\<rparr>
     = (st, []) \<and>
   loadOlderMessages
     (acknowledged st \<lparr>socket_id = s, now = t, date = d, event = Load_older_messages r p oldest\<rparr>)
     prev = (prev, None)"
  by (simp add: step_def acknowledged_def loadOlderMessages_def)

text \<open>
  Claim C4 at a failing input: a connection that never registered reacts to a message.
  The reaction is stored and the room is notified.
\<close>

theorem unregistered_reaction_applied:
  "map_of (users (run init lurker)) ''b'' = None \<and>
   ''b'' \<in> sockets (run init lurker) \<and>
   map reactions (room_log (rooms (run init lurker)) ''global'') = [[]] \<and>
   map reactions (room_log (rooms (fst (step (run init lurker)
      (at 7 ''b'' (React_message 5 ''+''))))) ''global'') = [[(''b'', ''+'')]] \<and>
   snd (step (run init lurker) (at 7 ''b'' (React_message 5 ''+'')))
     = [(To_room ''global'', Message_reaction 5 ''+'')]"
  by (simp add: scen_defs handler_defs)

text \<open>
  The six other client operations are ignored when they come from a connection without a
  registered session: the state is unchanged and nothing is emitted.
\<close>

theorem unregistered_ignored:
  assumes "map_of (users st) (socket_id i) = None"
    "event i \<in> {Join_room r, Send_message body, Send_private to body, Send_file fname fdata,
                 Typing b, Read_message k}"
  shows "step st i = (st, [])"
  using assms
  by (auto simp: step_def on_join_room_def on_send_message_def on_private_message_def
      on_send_file_def on_typing_def on_read_message_def)

text \<open>A read receipt from the unregistered connection of the scenario is ignored.\<close>

theorem unregistered_ignored_witness:
  "map_of (users (run init lurker)) (socket_id (at 7 ''b'' (Read_message 5))) = None \<and>
   step (run init lurker) (at 7 ''b'' (Read_message 5)) = (run init lurker, [])"
proof -
  have h: "map_of (users (run init lurker)) (socket_id (at 7 ''b'' (Read_message 5))) = None"
    by (simp add: scen_defs handler_defs)
  have e: "event (at 7 ''b'' (Read_message 5)) \<in>
      {Join_room ''tech'', Send_message ''x'', Send_private ''a'' ''x'', Send_file ''f'' ''d'',
       Typing True, Read_message 5}"
    by (simp add: at_def)
  show ?thesis using h unregistered_ignored [OF h e] by (intro conjI)
qed

text \<open>
  Claim C5, as amended.  A message's id is the clock reading at its creation.  When the
  readings do not decrease along the inputs, the ids do not decrease in creation order,
  every id is one of the readings, and every room's log is in non-decreasing id order.
  (Ids need not be distinct.)
\<close>

theorem ids_follow_the_clock:
  assumes "sorted (map now es)"
  shows "sorted (map msg_id (created (emitted init es))) \<and>
         set (map msg_id (created (emitted init es))) \<subseteq> set (map now es) \<and>
         (\<forall>r. sorted (map msg_id (room_log (rooms (run init es)) r)))"
proof -
  have "\<forall>r. sorted (map msg_id (room_log (rooms (run init es)) r))"
    using logs_sorted_run [OF assms, of init] by (simp add: init_def room_log_def)
  then show ?thesis using created_sorted [OF assms] created_ids_now by blast
qed

text \<open>The readings of the scenario with two sends do not decrease.\<close>

theorem ids_follow_the_clock_witness:
  "sorted (map now two_sends) \<and>
   sorted (map msg_id (created (emitted init two_sends))) \<and>
   sorted (map msg_id (room_log (rooms (run init two_sends)) ''global''))"
proof -
  have h: "sorted (map now two_sends)"
    by (simp add: scen_defs at_def)
  note t = ids_follow_the_clock [OF h]
  show ?thesis
    using h t [THEN conjunct1] t [THEN conjunct2, THEN conjunct2, THEN spec, of "''global''"]
    by (intro conjI)
qed

text \<open>
  Claim C5 as stated fails for two messages sent within one millisecond: both get the id 5.
\<close>

theorem ids_counterexample:
  "map msg_id (created (emitted init two_sends)) = [5, 5] \<and>
   map msg_id (room_log (rooms (run init two_sends)) ''global'') = [5, 5] \<and>
   map message (room_log (rooms (run init two_sends)) ''global'') = [''hi'', ''again'']"
  by (simp add: scen_defs handler_defs created_def)

text \<open>
  Claim C6.  Whatever inputs follow, a message at position \<open>i\<close> of a room's log stays
  at that position with the same id, room, privacy flag, timestamp, text, attachment and
  sender, and its reactions and readers only grow at the end.
\<close>

theorem appended_message_frame:
  assumes "i < length (room_log (rooms st) r)"
  shows "i < length (room_log (rooms (run st es)) r) \<and>
         msg_id (room_log (rooms (run st es)) r ! i) = msg_id (room_log (rooms st) r ! i) \<and>
         msg_room (room_log (rooms (run st es)) r ! i) = msg_room (room_log (rooms st) r ! i) \<and>
         isPrivate (room_log (rooms (run st es)) r ! i) = isPrivate (room_log (rooms st) r ! i) \<and>
         timestamp (room_log (rooms (run st es)) r ! i) = timestamp (room_log (rooms st) r ! i) \<and>
         message (room_log (rooms (run st es)) r ! i) = message (room_log (rooms st) r ! i) \<and>
         fileData (room_log (rooms (run st es)) r ! i) = fileData (room_log (rooms st) r ! i) \<and>
         fileName (room_log (rooms (run st es)) r ! i) = fileName (room_log (rooms st) r ! i) \<and>
         sender (room_log (rooms (run st es)) r ! i) = sender (room_log (rooms st) r ! i) \<and>
         senderId (room_log (rooms (run st es)) r ! i) = senderId (room_log (rooms st) r ! i) \<and>
         prefix (reactions (room_log (rooms st) r ! i))
                (reactions (room_log (rooms (run st es)) r ! i)) \<and>
         prefix (readers (room_log (rooms st) r ! i))
                (readers (room_log (rooms (run st es)) r ! i))"
proof -
  have "log_ext (room_log (rooms st) r) (room_log (rooms (run st es)) r)"
    using run_log_ext .
  then have "length (room_log (rooms st) r) \<le> length (room_log (rooms (run st es)) r)"
    and "msg_ext (room_log (rooms st) r ! i) (room_log (rooms (run st es)) r ! i)"
    using assms unfolding log_ext_def by blast+
  then show ?thesis using assms unfolding msg_ext_def by simp
qed

text \<open>A message that then gets a reaction and a read receipt keeps its text.\<close>

theorem appended_message_frame_witness:
  "0 < length (room_log (rooms (run init one_send)) ''global'') \<and>
   message (room_log (rooms (run (run init one_send)
       [at 6 ''a'' (React_message 5 ''+''), at 7 ''a'' (Read_message 5)])) ''global'' ! 0) = ''hi'' \<and>
   reactions (room_log (rooms (run (run init one_send)
       [at 6 ''a'' (React_message 5 ''+''), at 7 ''a'' (Read_message 5)])) ''global'' ! 0)
     = [(''a'', ''+'')]"
proof -
  have h: "0 < length (room_log (rooms (run init one_send)) ''global'')"
    by (simp add: scen_defs handler_defs)
  have m: "message (room_log (rooms (run init one_send)) ''global'' ! 0) = ''hi''"
    by (simp add: scen_defs handler_defs)
  note t = appended_message_frame [OF h,
      of "[at 6 ''a'' (React_message 5 ''+''), at 7 ''a'' (Read_message 5)]"]
  have "message (room_log (rooms (run (run init one_send)
       [at 6 ''a'' (React_message 5 ''+''), at 7 ''a'' (Read_message 5)])) ''global'' ! 0) = ''hi''"
    using t m by simp
  moreover have "reactions (room_log (rooms (run (run init one_send)
       [at 6 ''a'' (React_message 5 ''+''), at 7 ''a'' (Read_message 5)])) ''global'' ! 0)
     = [(''a'', ''+'')]"
    by (simp add: scen_defs handler_defs)
  ultimately show ?thesis using h by (intro conjI)
qed

text \<open>
  Claim C7.  After a read receipt for a message id from a session, a second one for the
  same id from a session with the same reader name (the same session, or another one
  registered under that name) changes nothing and notifies nobody.
\<close>

theorem markRead_idempotent:
  assumes "username_of st s' = username_of st s"
  shows "on_read_message s' k (fst (on_read_message s k st)) = (fst (on_read_message s k st), [])"
proof (cases "map_of (users st) s")
  case None
  with assms have "map_of (users st) s' = None" by (simp add: username_of_def)
  with None show ?thesis by (simp add: on_read_message_def)
next
  case (Some u)
  with assms obtain u' where u': "map_of (users st) s' = Some u'" "username u' = username u"
    by (auto simp: username_of_def)
  obtain rs out where rr: "read_rooms (username u) k (rooms st) = (rs, out)"
    by (cases "read_rooms (username u) k (rooms st)")
  have "read_rooms (username u) k rs = (rs, [])"
    using read_rooms_idem [of "username u" k "rooms st"] rr by simp
  then show ?thesis using Some u' rr by (simp add: on_read_message_def)
qed

text \<open>Two connections registered under the name \<open>al\<close> read the same message.\<close>

theorem markRead_idempotent_witness:
  "username_of (run init namesakes) ''b'' = username_of (run init namesakes) ''a'' \<and>
   map readers (room_log (rooms (fst (on_read_message ''a'' 5 (run init namesakes)))) ''global'')
     = [[''al'']] \<and>
   on_read_message ''b'' 5 (fst (on_read_message ''a'' 5 (run init namesakes)))
     = (fst (on_read_message ''a'' 5 (run init namesakes)), [])"
proof -
  have h: "username_of (run init namesakes) ''b'' = username_of (run init namesakes) ''a''"
    by (simp add: scen_defs handler_defs username_of_def)
  have r: "map readers
      (room_log (rooms (fst (on_read_message ''a'' 5 (run init namesakes)))) ''global'')
     = [[''al'']]"
    by (simp add: scen_defs handler_defs)
  show ?thesis using h r markRead_idempotent [OF h, of 5] by (intro conjI)
qed

text \<open>
  Claim C8.  In every reachable state, after the disconnect of a session its id is no key
  of \<open>users\<close> and no key of \<open>typingUsers\<close>, it is not a connected socket, and it is
  a member of no channel.
\<close>

theorem disconnect_retracts:
  "map_of (users (fst (step (run init es)
       \<lparr>socket_id = s, now = t, date = d, event = Disconnect\<rparr>))) s = None \<and>
   map_of (typingUsers (fst (step (run init es)
       \<lparr>socket_id = s, now = t, date = d, event = Disconnect\<rparr>))) s = None \<and>
   s \<notin> sockets (fst (step (run init es)
       \<lparr>socket_id = s, now = t, date = d, event = Disconnect\<rparr>)) \<and>
   (\<forall>r. s \<notin> members (fst (step (run init es)
       \<lparr>socket_id = s, now = t, date = d, event = Disconnect\<rparr>)) r) \<and>
   (\<forall>r. (s, r) \<notin> adapter (fst (step (run init es)
       \<lparr>socket_id = s, now = t, date = d, event = Disconnect\<rparr>)))"
proof -
  have "typing_inv (run init es)"
    using typing_inv_run [OF typing_inv_init] .
  then have "map_of (users (run init es)) s = None \<Longrightarrow>
      map_of (typingUsers (run init es)) s = None"
    unfolding typing_inv_def by blast
  then show ?thesis
    by (cases "map_of (users (run init es)) s")
      (auto simp: step_def on_disconnect_def Let_def delete_conv' members_def)
qed

text \<open>A session that is typing in the default room when it disconnects.\<close>

theorem disconnect_retracts_witness:
  "map_of (typingUsers (run init typing_a)) ''a'' = Some ''al'' \<and>
   ''a'' \<in> members (run init typing_a) ''global'' \<and>
   map_of (users (fst (step (run init typing_a)
       \<lparr>socket_id = ''a'', now = 4, date = 4, event = Disconnect\<rparr>))) ''a'' = None \<and>
   map_of (typingUsers (fst (step (run init typing_a)
       \<lparr>socket_id = ''a'', now = 4, date = 4, event = Disconnect\<rparr>))) ''a'' = None \<and>
   ''a'' \<notin> members (fst (step (run init typing_a)
       \<lparr>socket_id = ''a'', now = 4, date = 4, event = Disconnect\<rparr>)) ''global''"
proof -
  have a: "map_of (typingUsers (run init typing_a)) ''a'' = Some ''al''"
    by (simp add: scen_defs handler_defs)
  have b: "''a'' \<in> members (run init typing_a) ''global''"
    by (simp add: scen_defs handler_defs members_def)
  note t = disconnect_retracts [of typing_a "''a''" 4 4]
  show ?thesis
    using a b t [THEN conjunct1] t [THEN conjunct2, THEN conjunct1]
      t [THEN conjunct2, THEN conjunct2, THEN conjunct2, THEN conjunct1, THEN spec, of "''global''"]
    by (intro conjI)
qed

text \<open>
  Claim C9, as amended.  Every private message that a step creates has the room field
  \<open>"global"\<close>, the default of \<open>createMessage\<close> (never \<open>null\<close>), and only the
  \<open>private_message\<close> handler creates private messages.
\<close>

theorem private_message_room:
  assumes "m \<in> set (created (snd (step st i)))" "isPrivate m"
  shows "msg_room m = Some ''global'' \<and> (\<exists>to body. event i = Send_private to body)"
proof (cases "event i")
  case (React_message k x)
  then have "snd (step st i) = snd (react_rooms (socket_id i) k x (rooms st))"
    by (simp add: step_def on_react_message_def split: prod.splits)
  then show ?thesis using assms by simp
next
  case (Read_message k)
  show ?thesis
  proof (cases "map_of (users st) (socket_id i)")
    case None
    then show ?thesis using Read_message assms
      by (simp add: step_def on_read_message_def created_def)
  next
    case (Some u)
    then have "snd (step st i) = snd (read_rooms (username u) k (rooms st))"
      using Read_message by (simp add: step_def on_read_message_def split: prod.splits)
    then show ?thesis using assms by simp
  qed
qed (use assms in \<open>auto simp: step_def created_def on_connection_def on_user_join_def on_join_room_def
      on_send_message_def on_private_message_def on_send_file_def on_typing_def
      on_disconnect_def createMessage_def or_default_def Let_def
      split: option.splits\<close>)

text \<open>The private message of the scenario is created, is private and has room \<open>"global"\<close>.\<close>

theorem private_message_room_witness:
  "private_hi \<in> set (created (snd (step (run init joined_a) (at 3 ''a'' (Send_private ''b'' ''hi''))))) \<and>
   isPrivate private_hi \<and> msg_room private_hi = Some ''global''"
proof -
  have a: "private_hi \<in>
      set (created (snd (step (run init joined_a) (at 3 ''a'' (Send_private ''b'' ''hi'')))))"
    by (simp add: scen_defs handler_defs created_def private_hi_def)
  have b: "isPrivate private_hi"
    by (simp add: private_hi_def)
  show ?thesis
    using a b private_message_room [OF a b, THEN conjunct1] by (intro conjI)
qed

text \<open>
  Claim C9 as stated fails for any private message: the one created here has the room
  field \<open>"global"\<close>, not \<open>null\<close>.
\<close>

theorem private_message_room_counterexample:
  "map isPrivate (created (snd (step (run init joined_a) (at 3 ''a'' (Send_private ''b'' ''hi'')))))
     = [True] \<and>
   map msg_room (created (snd (step (run init joined_a) (at 3 ''a'' (Send_private ''b'' ''hi'')))))
     = [Some ''global'']"
  by (simp add: scen_defs handler_defs created_def)

text \<open>
  Claim C10, as amended.  A read receipt from a registered session keeps the rooms and the
  lengths of their logs.  In every room's log it changes at most one message: the first one
  with the given id gets the reader's name at the end of its readers, unless it has it
  already; later messages of that log with the same id are left alone.  Exactly the rooms
  where a name was added are notified, once each, with the new list of readers.
\<close>

theorem read_receipt_first_match:
  assumes "map_of (users st) s = Some u" "distinct (map fst (rooms st))"
  shows
   "map fst (rooms (fst (on_read_message s k st))) = map fst (rooms st) \<and>
    (\<forall>r. length (room_log (rooms (fst (on_read_message s k st))) r)
           = length (room_log (rooms st) r)) \<and>
    (\<forall>r i. i < length (room_log (rooms st) r) \<longrightarrow>
        room_log (rooms (fst (on_read_message s k st))) r ! i =
          (if first_with_id k (room_log (rooms st) r) i \<and>
              username u \<notin> set (readers (room_log (rooms st) r ! i))
           then (room_log (rooms st) r ! i)
                  \<lparr>readers := readers (room_log (rooms st) r ! i) @ [username u]\<rparr>
           else room_log (rooms st) r ! i)) \<and>
    (\<forall>r x. (To_room r, Message_read k x) \<in> set (snd (on_read_message s k st)) \<longleftrightarrow>
        (\<exists>i. first_with_id k (room_log (rooms st) r) i \<and>
             username u \<notin> set (readers (room_log (rooms st) r ! i)) \<and>
             x = readers (room_log (rooms st) r ! i) @ [username u])) \<and>
    (\<forall>e\<in>set (snd (on_read_message s k st)). \<exists>r x. e = (To_room r, Message_read k x)) \<and>
    distinct (map fst (snd (on_read_message s k st)))"
proof -
  let ?n = "username u"
  let ?rs = "rooms st"
  let ?out = "concat (map (\<lambda>p. read_note ?n k (fst p) (snd p)) ?rs)"
  have f: "rooms (fst (on_read_message s k st)) = map (\<lambda>p. (fst p, read_log ?n k (snd p))) ?rs"
    using assms(1) by (simp add: on_read_message_def read_rooms_eq)
  have g: "snd (on_read_message s k st) = ?out"
    using assms(1) by (simp add: on_read_message_def read_rooms_eq)
  have l: "\<And>r. room_log (rooms (fst (on_read_message s k st))) r = read_log ?n k (room_log ?rs r)"
    unfolding f by (rule room_log_map) simp
  have c1: "map fst (rooms (fst (on_read_message s k st))) = map fst ?rs"
    unfolding f by (simp add: comp_def)
  have c2: "\<forall>r. length (room_log (rooms (fst (on_read_message s k st))) r)
           = length (room_log ?rs r)"
    unfolding l by simp
  have c3: "\<forall>r i. i < length (room_log ?rs r) \<longrightarrow>
        room_log (rooms (fst (on_read_message s k st))) r ! i =
          (if first_with_id k (room_log ?rs r) i \<and> ?n \<notin> set (readers (room_log ?rs r ! i))
           then (room_log ?rs r ! i)\<lparr>readers := readers (room_log ?rs r ! i) @ [?n]\<rparr>
           else room_log ?rs r ! i)"
    unfolding l using read_log_nth by blast
  have mem: "e \<in> set ?out \<longleftrightarrow> (\<exists>p\<in>set ?rs. e \<in> set (read_note ?n k (fst p) (snd p)))" for e
    by auto
  have c4: "\<forall>r x. (To_room r, Message_read k x) \<in> set (snd (on_read_message s k st)) \<longleftrightarrow>
        (\<exists>i. first_with_id k (room_log ?rs r) i \<and>
             ?n \<notin> set (readers (room_log ?rs r ! i)) \<and>
             x = readers (room_log ?rs r ! i) @ [?n])"
  proof (intro allI iffI)
    fix r x
    assume "(To_room r, Message_read k x) \<in> set (snd (on_read_message s k st))"
    then obtain p where p: "p \<in> set ?rs"
      "(To_room r, Message_read k x) \<in> set (read_note ?n k (fst p) (snd p))"
      unfolding g mem by blast
    from p(2) obtain i where i: "first_with_id k (snd p) i"
      "?n \<notin> set (readers (snd p ! i))" "fst p = r" "x = readers (snd p ! i) @ [?n]"
      unfolding read_note_iff by auto
    from p(1) i(3) assms(2) have "map_of ?rs r = Some (snd p)"
      by (metis map_of_is_SomeI prod.collapse)
    then have "room_log ?rs r = snd p" by (simp add: room_log_def)
    with i show "\<exists>i. first_with_id k (room_log ?rs r) i \<and>
             ?n \<notin> set (readers (room_log ?rs r ! i)) \<and>
             x = readers (room_log ?rs r ! i) @ [?n]" by auto
  next
    fix r x
    assume "\<exists>i. first_with_id k (room_log ?rs r) i \<and>
             ?n \<notin> set (readers (room_log ?rs r ! i)) \<and>
             x = readers (room_log ?rs r ! i) @ [?n]"
    then obtain i where i: "first_with_id k (room_log ?rs r) i"
      "?n \<notin> set (readers (room_log ?rs r ! i))" "x = readers (room_log ?rs r ! i) @ [?n]"
      by blast
    from i(1) have "room_log ?rs r \<noteq> []" by (auto simp: first_with_id_def)
    then obtain l where l: "map_of ?rs r = Some l" "room_log ?rs r = l"
      by (cases "map_of ?rs r") (auto simp: room_log_def)
    then have "(r, l) \<in> set ?rs" by (simp add: map_of_SomeD)
    moreover have "(To_room r, Message_read k x) \<in> set (read_note ?n k r l)"
      unfolding read_note_iff using i l by auto
    ultimately show "(To_room r, Message_read k x) \<in> set (snd (on_read_message s k st))"
      unfolding g mem by force
  qed
  have c5: "\<forall>e\<in>set (snd (on_read_message s k st)). \<exists>r x. e = (To_room r, Message_read k x)"
  proof
    fix e
    assume "e \<in> set (snd (on_read_message s k st))"
    then obtain p where "e \<in> set (read_note ?n k (fst p) (snd p))"
      unfolding g mem by blast
    then show "\<exists>r x. e = (To_room r, Message_read k x)"
      unfolding read_note_iff by blast
  qed
  have c6: "distinct (map fst (snd (on_read_message s k st)))"
    unfolding g using distinct_read_notes [OF assms(2)] by blast
  show ?thesis using c1 c2 c3 c4 c5 c6 by (intro conjI)
qed

text \<open>
  Two rooms hold a message with the id 6: one read receipt notifies both rooms.
\<close>

theorem read_receipt_first_match_witness:
  "map_of (users (run init shared_id)) ''a''
     = Some \<lparr>username = ''al'', uid = ''a'', room = ''global''\<rparr> \<and>
   distinct (map fst (rooms (run init shared_id))) \<and>
   map msg_id (room_log (rooms (run init shared_id)) ''global'') = [6] \<and>
   map msg_id (room_log (rooms (run init shared_id)) ''tech'') = [6] \<and>
   map fst (rooms (fst (on_read_message ''a'' 6 (run init shared_id)))) = [''tech'', ''global''] \<and>
   snd (on_read_message ''a'' 6 (run init shared_id))
     = [(To_room ''tech'', Message_read 6 [''al'']), (To_room ''global'', Message_read 6 [''al''])]"
proof -
  have h1: "map_of (users (run init shared_id)) ''a''
     = Some \<lparr>username = ''al'', uid = ''a'', room = ''global''\<rparr>"
    by (simp add: scen_defs handler_defs)
  have h2: "distinct (map fst (rooms (run init shared_id)))"
    by (simp add: scen_defs handler_defs)
  have k: "map fst (rooms (run init shared_id)) = [''tech'', ''global'']"
    by (simp add: scen_defs handler_defs)
  have i1: "map msg_id (room_log (rooms (run init shared_id)) ''global'') = [6]"
    by (simp add: scen_defs handler_defs)
  have i2: "map msg_id (room_log (rooms (run init shared_id)) ''tech'') = [6]"
    by (simp add: scen_defs handler_defs)
  have o: "snd (on_read_message ''a'' 6 (run init shared_id))
     = [(To_room ''tech'', Message_read 6 [''al'']), (To_room ''global'', Message_read 6 [''al''])]"
    by (simp add: scen_defs handler_defs)
  have "map fst (rooms (fst (on_read_message ''a'' 6 (run init shared_id))))
      = [''tech'', ''global'']"
    using read_receipt_first_match [OF h1 h2, of 6, THEN conjunct1] k by simp
  then show ?thesis using h1 h2 i1 i2 o by (intro conjI)
qed

text \<open>
  Claim C10 as stated fails when one log holds two messages with the same id: only the
  first gets the reader.
\<close>

theorem read_receipt_counterexample:
  "map msg_id (room_log (rooms (run init two_sends)) ''global'') = [5, 5] \<and>
   map readers (room_log (rooms (fst (step (run init two_sends) (at 6 ''a'' (Read_message 5)))))
      ''global'') = [[''al''], []]"
  by (simp add: scen_defs handler_defs)

section \<open>Further properties\<close>

text \<open>
  A reaction or a read receipt for an id that no log holds is dropped: the state is
  unchanged and nothing is emitted.
\<close>

theorem unknown_message_id_dropped:
  assumes "\<forall>p\<in>set (rooms st). \<forall>m\<in>set (snd p). msg_id m \<noteq> k"
  shows "on_react_message s k x st = (st, []) \<and> on_read_message s k st = (st, [])"
  using react_rooms_unknown [OF assms] read_rooms_unknown [OF assms]
  by (simp add: on_react_message_def on_read_message_def split: option.splits)

text \<open>No message of the scenario has the id 9.\<close>

theorem unknown_message_id_dropped_witness:
  "map fst (rooms (run init one_send)) = [''global''] \<and>
   map msg_id (room_log (rooms (run init one_send)) ''global'') = [5] \<and>
   on_react_message ''a'' 9 ''+'' (run init one_send) = (run init one_send, []) \<and>
   on_read_message ''a'' 9 (run init one_send) = (run init one_send, [])"
proof -
  have h: "\<forall>p\<in>set (rooms (run init one_send)). \<forall>m\<in>set (snd p). msg_id m \<noteq> 9"
    by (simp add: scen_defs handler_defs)
  have k: "map fst (rooms (run init one_send)) = [''global'']"
    by (simp add: scen_defs handler_defs)
  have i: "map msg_id (room_log (rooms (run init one_send)) ''global'') = [5]"
    by (simp add: scen_defs handler_defs)
  note t = unknown_message_id_dropped [OF h, of "''a''" "''+''"]
  show ?thesis
    using k i t [THEN conjunct1] t [THEN conjunct2] by (intro conjI)
qed

text \<open>
  A switch by a registered session to a room that has no log yet creates the room with an
  empty log, after the existing rooms, and sends the session that empty history.
\<close>

theorem unknown_room_created:
  assumes "map_of (users st) s = Some u" "map_of (rooms st) r = None"
  shows "rooms (fst (on_join_room s r st)) = rooms st @ [(r, [])] \<and>
         snd (on_join_room s r st) =
           [(To_room s, Room_messages []),
            (To_room r, Room_users (filter (\<lambda>v. room v = r)
                (map snd (AList.update s (u\<lparr>room := r\<rparr>) (users st)))))]"
proof -
  have "room_log (AList.update r [] (rooms st)) r = []"
    by (simp add: room_log_update)
  then show ?thesis using assms
    by (simp add: on_join_room_def Let_def update_absent [symmetric])
qed

text \<open>The first switch to \<open>tech\<close> creates that room.\<close>

theorem unknown_room_created_witness:
  "map_of (users (run init joined_a)) ''a''
     = Some \<lparr>username = ''al'', uid = ''a'', room = ''global''\<rparr> \<and>
   map_of (rooms (run init joined_a)) ''tech'' = None \<and>
   rooms (fst (on_join_room ''a'' ''tech'' (run init joined_a))) = [(''tech'', [])]"
proof -
  have h1: "map_of (users (run init joined_a)) ''a''
     = Some \<lparr>username = ''al'', uid = ''a'', room = ''global''\<rparr>"
    by (simp add: scen_defs handler_defs)
  have h2: "map_of (rooms (run init joined_a)) ''tech'' = None"
    by (simp add: scen_defs handler_defs)
  have r: "rooms (run init joined_a) = []"
    by (simp add: scen_defs handler_defs)
  show ?thesis
    using h1 h2 unknown_room_created [OF h1 h2, THEN conjunct1] r by simp
qed

end
